theory Spec2Isabelle
  imports Main
begin

section \<open>Python strings\<close>

text \<open>
  A Python \<open>str\<close> is modelled as a \<^typ>\<open>string\<close>: one \<^typ>\<open>char\<close> per code point, so
  the model covers the code points 0 to 255 and \<^const>\<open>length\<close> is Python's \<open>len\<close>.

  \<open>is_space\<close> is the test behind \<open>str.strip()\<close> with no argument: the white space of
  CPython's \<open>Py_UNICODE_ISSPACE\<close> in that range (TAB, LF, VT, FF, CR, the separators
  0x1C to 0x1F, the blank, NEL 0x85 and the no-break space 0xA0).
\<close>

definition is_space :: "char \<Rightarrow> bool" where
  "is_space c =
     (let n = (of_char c :: nat)
      in (9 \<le> n \<and> n \<le> 13) \<or> (28 \<le> n \<and> n \<le> 32) \<or> n = 133 \<or> n = 160)"

definition strip :: "string \<Rightarrow> string" where
  "strip s = rev (dropWhile is_space (rev (dropWhile is_space s)))"

text \<open>\<open>x or d\<close> for an \<open>Optional[str]\<close> \<open>x\<close> and a \<open>str\<close> \<open>d\<close>: \<open>None\<close> and the empty
  string are the falsy values.\<close>

definition or_else :: "string option \<Rightarrow> string \<Rightarrow> string" where
  "or_else x d = (case x of None \<Rightarrow> d | Some s \<Rightarrow> if s = [] then d else s)"

text \<open>The truth value of an \<open>Optional[str]\<close> in a condition (\<open>if recipient and ...\<close>).\<close>

definition truthy :: "string option \<Rightarrow> bool" where
  "truthy x = (case x of None \<Rightarrow> False | Some s \<Rightarrow> s \<noteq> [])"

section \<open>Log records\<close>

text \<open>Every call of \<open>LOGGER\<close> in \<open>discord_bot.py\<close>, with the arguments it is given.\<close>

datatype exn = Exn string

datatype log_entry =
    Truncated int
  | UnexpectedError exn
  | SkippingNoMapping int "string option"
  | SkippingNoChannel int int
  | FailedToSend int exn
  | RecipientNotInMap string int
  | FailedToFetchChannel int exn
  | NotMessageable int
  | MalformedEntry string
  | InvalidChannelId string string

section \<open>The notification record and its formatter\<close>

text \<open>The dataclass \<open>PushNotification\<close>; its field \<open>id\<close> is \<open>push_id\<close> here.\<close>

record push_notification =
  push_id :: int
  network :: string
  window :: string
  type :: string
  user :: "string option"
  nick :: "string option"
  message :: "string option"
  recipient :: "string option"

definition header :: "push_notification \<Rightarrow> string" where
  "header n = ''['' @ network n @ ''] '' @ window n @ '' ('' @ type n @ '')''"

definition author :: "push_notification \<Rightarrow> string" where
  "author n = or_else (nick n) (or_else (user n) ''Unknown'')"

definition body :: "push_notification \<Rightarrow> string" where
  "body n = or_else (message n) []"

text \<open>The local \<open>content\<close> of \<open>to_discord_message\<close>: the text before the length check.\<close>

definition content :: "push_notification \<Rightarrow> string" where
  "content n = strip (header n @ [CHR 0x0A] @ author n @ '': '' @ body n)"

text \<open>\<open>to_discord_message\<close> returns the text and the warnings it logged.\<close>

definition to_discord_message :: "push_notification \<Rightarrow> string \<times> log_entry list" where
  "to_discord_message n =
     (if length (content n) > 2000
      then (take 1997 (content n) @ ''...'', [Truncated (push_id n)])
      else (content n, []))"

section \<open>Channel resolution\<close>

record config =
  channel_map :: "string \<rightharpoonup> int"
  default_channel_id :: int

text \<open>\<open>_resolve_channel_id\<close>: the result has the source's type \<open>Optional[int]\<close>.\<close>

definition resolve_channel_id :: "config \<Rightarrow> string option \<Rightarrow> int option \<times> log_entry list" where
  "resolve_channel_id cfg r =
     (case r of
        None \<Rightarrow> (Some (default_channel_id cfg), [])
      | Some s \<Rightarrow>
          if s \<noteq> [] \<and> channel_map cfg s \<noteq> None then (channel_map cfg s, [])
          else if s \<noteq> [] \<and> s \<noteq> ''self''
          then (Some (default_channel_id cfg), [RecipientNotInMap s (default_channel_id cfg)])
          else (Some (default_channel_id cfg), []))"

section \<open>Parsing the channel map\<close>

text \<open>\<open>s.split(c)\<close> for a one-character separator: never the empty list.\<close>

fun split :: "char \<Rightarrow> string \<Rightarrow> string list" where
  "split c [] = [[]]"
| "split c (x # xs) =
     (if x = c then [] # split c xs
      else (case split c xs of [] \<Rightarrow> [[x]] | p # ps \<Rightarrow> (x # p) # ps))"

text \<open>
  \<open>int(s)\<close> for a \<open>str\<close>, base 10: white space around the number is dropped, then an
  optional sign, then decimal digits with single underscores between digits. Everything
  else is a \<open>ValueError\<close> (\<open>None\<close>), as is a number of more than \<open>int_max_str_digits\<close>
  digits (CPython's default limit). The white space \<open>int\<close> drops is not that of
  \<open>str.strip()\<close>: the separators 0x1C to 0x1F are no white space for it, so
  \<open>int('\x1c5')\<close> is a \<open>ValueError\<close>.
\<close>

definition is_int_space :: "char \<Rightarrow> bool" where
  "is_int_space c =
     (let n = (of_char c :: nat)
      in (9 \<le> n \<and> n \<le> 13) \<or> n = 32 \<or> n = 133 \<or> n = 160)"

definition is_digit :: "char \<Rightarrow> bool" where
  "is_digit c = (48 \<le> (of_char c :: nat) \<and> (of_char c :: nat) \<le> 57)"

definition digit_val :: "char \<Rightarrow> nat" where
  "digit_val c = of_char c - 48"

definition int_max_str_digits :: nat where
  "int_max_str_digits = 4300"

fun digits :: "nat \<Rightarrow> string \<Rightarrow> nat option" where
  "digits acc [] = Some acc"
| "digits acc [c] = (if is_digit c then Some (10 * acc + digit_val c) else None)"
| "digits acc (c # d # ds) =
     (if is_digit c then digits (10 * acc + digit_val c) (d # ds)
      else if c = CHR ''_'' \<and> is_digit d then digits (10 * acc + digit_val d) ds
      else None)"

definition unsigned :: "string \<Rightarrow> nat option" where
  "unsigned s =
     (case s of
        [] \<Rightarrow> None
      | c # cs \<Rightarrow>
          if is_digit c \<and> length (filter is_digit s) \<le> int_max_str_digits
          then digits (digit_val c) cs else None)"

definition py_int :: "string \<Rightarrow> int option" where
  "py_int s =
     (case rev (dropWhile is_int_space (rev (dropWhile is_int_space s))) of
        [] \<Rightarrow> None
      | c # cs \<Rightarrow>
          if c = CHR ''-'' then map_option (\<lambda>n. - int n) (unsigned cs)
          else if c = CHR ''+'' then map_option int (unsigned cs)
          else map_option int (unsigned (c # cs)))"

text \<open>
  One pass of the loop of \<open>parse_channel_map\<close> over an entry: the mapping after it and
  the warnings it logged. \<open>entry.split("=", 1)\<close> is the text before the first \<open>=\<close> and
  the text after it.
\<close>

definition parse_entry ::
  "string \<Rightarrow> (string \<rightharpoonup> int) \<Rightarrow> (string \<rightharpoonup> int) \<times> log_entry list" where
  "parse_entry entry mapping =
     (if strip entry = [] then (mapping, [])
      else if CHR ''='' \<notin> set entry then (mapping, [MalformedEntry entry])
      else
        (let recipient = strip (takeWhile (\<lambda>c. c \<noteq> CHR ''='') entry);
             channel_id = strip (drop 1 (dropWhile (\<lambda>c. c \<noteq> CHR ''='') entry))
         in if recipient = [] \<or> channel_id = [] then (mapping, [MalformedEntry entry])
            else (case py_int channel_id of
                    None \<Rightarrow> (mapping, [InvalidChannelId channel_id recipient])
                  | Some i \<Rightarrow> (mapping(recipient \<mapsto> i), []))))"

fun parse_entries ::
  "string list \<Rightarrow> (string \<rightharpoonup> int) \<Rightarrow> (string \<rightharpoonup> int) \<times> log_entry list" where
  "parse_entries [] mapping = (mapping, [])"
| "parse_entries (entry # entries) mapping =
     (let (mapping', warnings) = parse_entry entry mapping;
          (mapping'', warnings') = parse_entries entries mapping'
      in (mapping'', warnings @ warnings'))"

definition parse_channel_map :: "string option \<Rightarrow> (string \<rightharpoonup> int) \<times> log_entry list" where
  "parse_channel_map raw_mapping =
     (case raw_mapping of
        None \<Rightarrow> (Map.empty, [])
      | Some raw \<Rightarrow>
          if raw = [] then (Map.empty, [])
          else parse_entries (split (CHR '','') raw) Map.empty)"

section \<open>The queue store, the messaging client and the engine's state\<close>

text \<open>A row of the table \<open>push\<close> (the mapped class \<open>Push\<close> of \<open>models.py\<close>).\<close>

record push =
  row_id :: int
  row_network :: string
  row_window :: string
  row_type :: string
  row_user :: "string option"
  row_nick :: "string option"
  row_message :: "string option"
  row_recipient :: "string option"

text \<open>A channel object of the client; \<open>messageable\<close> is \<open>isinstance(channel, Messageable)\<close>.\<close>

record channel =
  chan_id :: int
  messageable :: bool

text \<open>
  What the engine does to the outside, in the order it does it. An operation that can
  raise carries its outcome (\<open>None\<close>: it returned); \<open>Send\<close> also carries the id of the
  notification it was made for.
\<close>

datatype event =
    Log log_entry
  | Select "exn option"
  | Delete int "exn option"
  | GetChannel int
  | FetchChannel int
  | Send int channel string "exn option"
  | Sleep

text \<open>
  The outside is a family of answers indexed by the moment of the call, the number of
  events so far: the client's \<open>get_channel\<close>, \<open>fetch_channel\<close>, \<open>channel.send\<close> and
  \<open>is_closed\<close>, and whether the database raises on the select and on a delete. The
  exceptions it answers with (\<open>exn\<close>) are the errors, of class \<open>Exception\<close>. The task
  can also be cancelled, as \<open>close\<close> does: \<open>cancelled\<close> says whether the \<open>await\<close> made at
  that moment raises \<open>CancelledError\<close> in place of what it awaits; a cancelled await
  leaves no event. The awaits are those of the source: the fetch and the delete (each in
  a thread), the client's \<open>fetch_channel\<close>, the send and the sleep.
\<close>

record env =
  get_channel :: "nat \<Rightarrow> int \<Rightarrow> channel option"
  api_fetch_channel :: "nat \<Rightarrow> int \<Rightarrow> exn + channel"
  send :: "nat \<Rightarrow> channel \<Rightarrow> string \<Rightarrow> exn option"
  select_raises :: "nat \<Rightarrow> exn option"
  delete_raises :: "nat \<Rightarrow> int \<Rightarrow> exn option"
  is_closed :: "nat \<Rightarrow> bool"
  cancelled :: "nat \<Rightarrow> bool"

text \<open>
  What leaves a coroutine of the engine: an error, which \<open>except Exception\<close> catches, or
  the \<open>CancelledError\<close> of a cancelled \<open>await\<close>, which is no \<open>Exception\<close> and which no
  handler of the engine catches.
\<close>

datatype thrown = Exception exn | CancelledError

record state =
  push_table :: "push list"
  channel_cache :: "int \<rightharpoonup> channel"
  events :: "event list"

definition now :: "state \<Rightarrow> nat" where
  "now s = length (events s)"

definition emit :: "event \<Rightarrow> state \<Rightarrow> state" where
  "emit e s = s\<lparr>events := events s @ [e]\<rparr>"

definition logs :: "log_entry list \<Rightarrow> state \<Rightarrow> state" where
  "logs ls s = s\<lparr>events := events s @ map Log ls\<rparr>"

section \<open>The resolved-target cache\<close>

text \<open>Lines 179 to 184 of \<open>_fetch_channel\<close>: a messageable channel is cached and returned.\<close>

definition cache_if_messageable ::
  "int \<Rightarrow> channel \<Rightarrow> state \<Rightarrow> (thrown + channel option) \<times> state" where
  "cache_if_messageable cid ch s =
     (if messageable ch
      then (Inr (Some ch), s\<lparr>channel_cache := (channel_cache s)(cid \<mapsto> ch)\<rparr>)
      else (Inr None, emit (Log (NotMessageable cid)) s))"

text \<open>
  \<open>_fetch_channel\<close>: \<open>Inr\<close> is what it returns. Its one \<open>await\<close> is the client's
  \<open>fetch_channel\<close>, whose errors it catches and whose cancellation leaves it.
\<close>

definition fetch_channel :: "env \<Rightarrow> int \<Rightarrow> state \<Rightarrow> (thrown + channel option) \<times> state" where
  "fetch_channel en cid s =
     (case channel_cache s cid of
        Some ch \<Rightarrow> (Inr (Some ch), s)
      | None \<Rightarrow>
          (case get_channel en (now s) cid of
             Some ch \<Rightarrow> cache_if_messageable cid ch (emit (GetChannel cid) s)
           | None \<Rightarrow>
               (let s1 = emit (GetChannel cid) s
                in if cancelled en (now s1) then (Inl CancelledError, s1)
                   else case api_fetch_channel en (now s1) cid of
                     Inl e \<Rightarrow>
                       (Inr None,
                        emit (Log (FailedToFetchChannel cid e)) (emit (FetchChannel cid) s1))
                   | Inr ch \<Rightarrow> cache_if_messageable cid ch (emit (FetchChannel cid) s1))))"

section \<open>The queue store's two operations\<close>

definition to_notification :: "push \<Rightarrow> push_notification" where
  "to_notification row =
     \<lparr>push_id = row_id row, network = row_network row, window = row_window row,
      type = row_type row, user = row_user row, nick = row_nick row,
      message = row_message row, recipient = row_recipient row\<rparr>"

text \<open>
  \<open>_fetch_pending_notifications\<close>: \<open>select(Push).order_by(Push.id)\<close> is the rows of the
  table sorted by id, ascending. An exception of the session leaves the method.
\<close>

definition fetch_pending_notifications ::
  "env \<Rightarrow> state \<Rightarrow> (exn + push_notification list) \<times> state" where
  "fetch_pending_notifications en s =
     (case select_raises en (now s) of
        Some e \<Rightarrow> (Inl e, emit (Select (Some e)) s)
      | None \<Rightarrow>
          (Inr (map to_notification (sort_key row_id (push_table s))), emit (Select None) s))"

text \<open>\<open>_delete_push_row\<close>: a transaction that raises is rolled back, the row stays.\<close>

definition delete_push_row :: "env \<Rightarrow> int \<Rightarrow> state \<Rightarrow> exn option \<times> state" where
  "delete_push_row en i s =
     (case delete_raises en (now s) i of
        Some e \<Rightarrow> (Some e, emit (Delete i (Some e)) s)
      | None \<Rightarrow>
          (None, emit (Delete i None) (s\<lparr>push_table := filter (\<lambda>r. row_id r \<noteq> i) (push_table s)\<rparr>)))"

section \<open>Delivery\<close>

text \<open>
  The body of the \<open>for\<close> loop of \<open>_deliver_notifications\<close> for one notification. The
  first component is what leaves the loop, \<open>None\<close> when the loop goes on to the next
  notification: an error of the delete, which is outside every \<open>try\<close>, or the
  cancellation of one of the three awaits (the channel, the send, the delete), which the
  \<open>except Exception\<close> around the send does not catch.
\<close>

definition deliver_notification ::
  "env \<Rightarrow> config \<Rightarrow> push_notification \<Rightarrow> state \<Rightarrow> thrown option \<times> state" where
  "deliver_notification en cfg n s =
     (let (channel_id, warnings) = resolve_channel_id cfg (recipient n);
          s1 = logs warnings s
      in case channel_id of
           None \<Rightarrow> (None, emit (Log (SkippingNoMapping (push_id n) (recipient n))) s1)
         | Some cid \<Rightarrow>
             (case fetch_channel en cid s1 of
                (Inl t, s2) \<Rightarrow> (Some t, s2)
              | (Inr None, s2) \<Rightarrow> (None, emit (Log (SkippingNoChannel (push_id n) cid)) s2)
              | (Inr (Some ch), s2) \<Rightarrow>
                  (let (text, warnings') = to_discord_message n;
                       s3 = logs warnings' s2
                   in if cancelled en (now s3) then (Some CancelledError, s3)
                      else case send en (now s3) ch text of
                        Some e \<Rightarrow>
                          (None, emit (Log (FailedToSend (push_id n) e))
                                   (emit (Send (push_id n) ch text (Some e)) s3))
                      | None \<Rightarrow>
                          (let s4 = emit (Send (push_id n) ch text None) s3
                           in if cancelled en (now s4) then (Some CancelledError, s4)
                              else case delete_push_row en (push_id n) s4 of
                                (Some e, s5) \<Rightarrow> (Some (Exception e), s5)
                              | (None, s5) \<Rightarrow> (None, s5)))))"

fun deliver_notifications ::
  "env \<Rightarrow> config \<Rightarrow> push_notification list \<Rightarrow> state \<Rightarrow> thrown option \<times> state" where
  "deliver_notifications en cfg [] s = (None, s)"
| "deliver_notifications en cfg (n # ns) s =
     (case deliver_notification en cfg n s of
        (Some e, s') \<Rightarrow> (Some e, s')
      | (None, s') \<Rightarrow> deliver_notifications en cfg ns s')"

section \<open>The poll loop\<close>

text \<open>The \<open>try\<close> block of \<open>_forward_notifications_loop\<close> and what leaves it: the fetch is
  awaited in a thread, so it can be cancelled or raise the error of the select.\<close>

definition try_block :: "env \<Rightarrow> config \<Rightarrow> state \<Rightarrow> thrown option \<times> state" where
  "try_block en cfg s =
     (if cancelled en (now s) then (Some CancelledError, s)
      else case fetch_pending_notifications en s of
        (Inl e, s1) \<Rightarrow> (Some (Exception e), s1)
      | (Inr notifications, s1) \<Rightarrow>
          if notifications \<noteq> [] then deliver_notifications en cfg notifications s1
          else (None, s1))"

text \<open>\<open>await asyncio.sleep(...)\<close>, outside the \<open>try\<close>.\<close>

definition asyncio_sleep :: "env \<Rightarrow> state \<Rightarrow> thrown option \<times> state" where
  "asyncio_sleep en s =
     (if cancelled en (now s) then (Some CancelledError, s) else (None, emit Sleep s))"

text \<open>
  One pass of the \<open>while\<close> loop: the \<open>try\<close> block, its handler, the sleep. The first
  component is what leaves the pass. \<open>except Exception\<close> catches and logs an error; a
  \<open>CancelledError\<close> passes it, so nothing is logged and the sleep is not reached.
\<close>

definition poll_cycle :: "env \<Rightarrow> config \<Rightarrow> state \<Rightarrow> thrown option \<times> state" where
  "poll_cycle en cfg s =
     (case try_block en cfg s of
        (Some (Exception e), s1) \<Rightarrow> asyncio_sleep en (emit (Log (UnexpectedError e)) s1)
      | (Some CancelledError, s1) \<Rightarrow> (Some CancelledError, s1)
      | (None, s1) \<Rightarrow> asyncio_sleep en s1)"

text \<open>
  The loop runs until the client is closed, so it is given fuel, one unit a pass:
  \<open>Returned\<close> when \<open>is_closed\<close> ended it, \<open>Raised\<close> when an exception left it,
  \<open>Running\<close> when it is about to start another pass and the fuel is spent.
\<close>

datatype outcome = Returned state | Raised thrown state | Running state

fun forward_notifications_loop :: "nat \<Rightarrow> env \<Rightarrow> config \<Rightarrow> state \<Rightarrow> outcome" where
  "forward_notifications_loop fuel en cfg s =
     (if is_closed en (now s) then Returned s
      else (case fuel of
              0 \<Rightarrow> Running s
            | Suc k \<Rightarrow>
                (case poll_cycle en cfg s of
                   (Some t, s') \<Rightarrow> Raised t s'
                 | (None, s') \<Rightarrow> forward_notifications_loop k en cfg s')))"

section \<open>Observing a run\<close>

text \<open>The events the engine added between two states.\<close>

definition new_events :: "state \<Rightarrow> state \<Rightarrow> event list" where
  "new_events s s' = drop (length (events s)) (events s')"

text \<open>
  The events that neither end the processing of a notification nor touch the table: the
  client's look-ups and the warnings on the way to the send.
\<close>

fun quiet :: "event \<Rightarrow> bool" where
  "quiet (GetChannel _) = True"
| "quiet (FetchChannel _) = True"
| "quiet (Log (RecipientNotInMap _ _)) = True"
| "quiet (Log (Truncated _)) = True"
| "quiet (Log (NotMessageable _)) = True"
| "quiet (Log (FailedToFetchChannel _ _)) = True"
| "quiet _ = False"

text \<open>
  The event that ends the processing of a notification names it: the send, or the log of
  the skip. \<open>handled\<close> lists these notifications in the order of the trace.
\<close>

fun handled :: "event \<Rightarrow> int list" where
  "handled (Send i _ _ _) = [i]"
| "handled (Log (SkippingNoChannel i _)) = [i]"
| "handled (Log (SkippingNoMapping i _)) = [i]"
| "handled _ = []"


text \<open>The state an outcome of the loop carries.\<close>

fun state_of :: "outcome \<Rightarrow> state" where
  "state_of (Returned s) = s"
| "state_of (Raised e s) = s"
| "state_of (Running s) = s"

text \<open>What \<open>_fetch_pending_notifications\<close> returns when the select succeeds.\<close>

definition pending :: "state \<Rightarrow> push_notification list" where
  "pending s = map to_notification (sort_key row_id (push_table s))"


section \<open>An example run\<close>

text \<open>
  Three pending rows with the ids 5, 3 and 9, the first for the recipient \<open>ops\<close>; a channel
  map that sends \<open>ops\<close> to channel 77 and everything else to channel 42; a client that
  knows every channel and refuses a send to channel 77; a database that works; a client
  that is never closed and a task that is never cancelled.
\<close>

definition example_row :: "int \<Rightarrow> string option \<Rightarrow> push" where
  "example_row i r =
     \<lparr>row_id = i, row_network = ''n'', row_window = ''w'', row_type = ''msg'', row_user = None,
      row_nick = Some ''alice'', row_message = Some ''hi'', row_recipient = r\<rparr>"

definition example_config :: config where
  "example_config = \<lparr>channel_map = [''ops'' \<mapsto> 77], default_channel_id = 42\<rparr>"

definition example_env :: env where
  "example_env =
     \<lparr>get_channel = (\<lambda>t c. Some \<lparr>chan_id = c, messageable = True\<rparr>),
      api_fetch_channel = (\<lambda>t c. Inl (Exn ''NotFound'')),
      send = (\<lambda>t ch text. if chan_id ch = 77 then Some (Exn ''Forbidden'') else None),
      select_raises = (\<lambda>t. None),
      delete_raises = (\<lambda>t i. None),
      is_closed = (\<lambda>t. False),
      cancelled = (\<lambda>t. False)\<rparr>"

definition example_state :: state where
  "example_state =
     \<lparr>push_table = [example_row 5 (Some ''ops''), example_row 3 (Some ''self''), example_row 9 None],
      channel_cache = Map.empty, events = []\<rparr>"

definition example_text :: string where
  "example_text = ''[n] w (msg)'' @ [CHR 0x0A] @ ''alice: hi''"


section \<open>Trimming\<close>

text \<open>\<open>strip\<close> removes a prefix and a suffix of white space and nothing else, the result
  neither starts nor ends with white space, and a text that does neither is left alone.\<close>

lemma strip_decomp:
  "\<exists>p q. s = p @ strip s @ q \<and> list_all is_space p \<and> list_all is_space q"
proof -
  let ?a = "takeWhile is_space s" and ?b = "dropWhile is_space s"
  let ?q = "rev (takeWhile is_space (rev ?b))"
  have 1: "s = ?a @ ?b" by simp
  have 2: "?b = strip s @ ?q"
    unfolding strip_def
    by (metis rev_append rev_rev_ident takeWhile_dropWhile_id)
  have "list_all is_space ?a" by (simp add: list_all_iff) (meson set_takeWhileD)
  moreover have "list_all is_space ?q" by (simp add: list_all_iff) (meson set_takeWhileD)
  ultimately show ?thesis using 1 2 by metis
qed

lemma strip_ends:
  assumes "strip s \<noteq> []"
  shows "\<not> is_space (hd (strip s)) \<and> \<not> is_space (last (strip s))"
proof -
  let ?b = "dropWhile is_space s"
  let ?c = "dropWhile is_space (rev ?b)"
  have c: "?c \<noteq> []" using assms by (simp add: strip_def)
  then have l: "\<not> is_space (hd ?c)" by (rule hd_dropWhile)
  have "last (strip s) = hd ?c" using c by (simp add: strip_def last_rev)
  moreover have "?b = strip s @ rev (takeWhile is_space (rev ?b))"
    unfolding strip_def by (metis rev_append rev_rev_ident takeWhile_dropWhile_id)
  then have "hd ?b = hd (strip s)" using assms by (metis hd_append2)
  moreover have "?b \<noteq> []" using c by (cases "?b") simp_all
  then have "\<not> is_space (hd ?b)" by (rule hd_dropWhile)
  ultimately show ?thesis using l by simp
qed

lemma strip_id:
  assumes "s \<noteq> []" "\<not> is_space (hd s)" "\<not> is_space (last s)"
  shows "strip s = s"
proof -
  have 1: "dropWhile is_space s = s" using assms by (cases s) auto
  have "rev s \<noteq> []" "\<not> is_space (hd (rev s))" using assms by (auto simp: hd_rev)
  then have "dropWhile is_space (rev s) = rev s" by (cases "rev s") auto
  then show ?thesis using 1 by (simp add: strip_def)
qed

section \<open>The formatter\<close>

text \<open>
  C4. The text a notification is formatted to, the local \<open>content\<close> of
  \<open>to_discord_message\<close>, is the header \<open>[network] window (type)\<close>, a line feed, the author,
  a colon and a blank, and the body, with the white space around the whole trimmed. The
  author is \<open>nick\<close> if it is there and not empty, else \<open>user\<close> if it is there and not
  empty, else \<open>Unknown\<close>; the body is \<open>message\<close>, or empty. The method returns this text
  as it is up to 2000 characters (the longer ones are the matter of C5). The record with
  nick \<open>alice\<close>, no user, message \<open>hi\<close>, network \<open>n\<close>, window \<open>w\<close> and type \<open>msg\<close> is
  formatted to \<open>[n] w (msg)\<close>, a line feed, \<open>alice: hi\<close>, whatever its id and recipient.
\<close>

theorem to_discord_message_format:
  "content n =
     strip (''['' @ network n @ ''] '' @ window n @ '' ('' @ type n @ '')'' @ [CHR 0x0A] @
            (if nick n \<noteq> None \<and> nick n \<noteq> Some [] then the (nick n)
             else if user n \<noteq> None \<and> user n \<noteq> Some [] then the (user n)
             else ''Unknown'') @
            '': '' @ (if message n = None then [] else the (message n)))
   \<and> fst (to_discord_message n) =
       (if length (content n) \<le> 2000 then content n else take 1997 (content n) @ ''...'')
   \<and> fst (to_discord_message
         \<lparr>push_id = i, network = ''n'', window = ''w'', type = ''msg'', user = None,
          nick = Some ''alice'', message = Some ''hi'', recipient = r\<rparr>) =
       ''[n] w (msg)'' @ [CHR 0x0A] @ ''alice: hi''"
  by (auto simp: content_def header_def author_def body_def or_else_def to_discord_message_def
        strip_def is_space_def split: option.splits)

theorem to_discord_message_format_witness:
  "fst (to_discord_message
         \<lparr>push_id = 1, network = ''n'', window = ''w'', type = ''msg'', user = None,
          nick = Some ''alice'', message = Some ''hi'', recipient = Some ''self''\<rparr>) =
   ''[n] w (msg)'' @ [CHR 0x0A] @ ''alice: hi''"
  by (rule to_discord_message_format [THEN conjunct2, THEN conjunct2])

text \<open>
  C5. When the trimmed text is longer than 2000 characters the method returns its first
  1997 characters followed by three dots, 2000 characters in all, and logs the truncation
  with the id of the notification; when it is at most 2000 characters it is returned
  unchanged and nothing is logged. The method is a total function of the record: there
  is no input on which it raises.
\<close>

theorem to_discord_message_truncation:
  "(2000 < length (content n) \<longrightarrow>
      to_discord_message n = (take 1997 (content n) @ ''...'', [Truncated (push_id n)])
      \<and> length (fst (to_discord_message n)) = 2000
      \<and> drop 1997 (fst (to_discord_message n)) = ''...'')
   \<and> (length (content n) \<le> 2000 \<longrightarrow> to_discord_message n = (content n, []))"
  by (simp add: to_discord_message_def)

theorem to_discord_message_truncation_witness:
  "to_discord_message
     \<lparr>push_id = 7, network = ''n'', window = ''w'', type = ''msg'', user = None,
      nick = Some ''alice'', message = Some (replicate 3000 (CHR ''x'')), recipient = None\<rparr> =
     (''[n] w (msg)'' @ [CHR 0x0A] @ ''alice: '' @ replicate 1978 (CHR ''x'') @ ''...'',
      [Truncated 7])
   \<and> to_discord_message
     \<lparr>push_id = 8, network = ''n'', window = ''w'', type = ''msg'', user = Some ''bob'',
      nick = None, message = None, recipient = None\<rparr> =
     (''[n] w (msg)'' @ [CHR 0x0A] @ ''bob:'', [])"
proof -
  let ?long = "\<lparr>push_id = 7, network = ''n'', window = ''w'', type = ''msg'', user = None,
      nick = Some ''alice'', message = Some (replicate 3000 (CHR ''x'')), recipient = None\<rparr>"
  let ?short = "\<lparr>push_id = 8, network = ''n'', window = ''w'', type = ''msg'',
      user = Some ''bob'', nick = None, message = None, recipient = None\<rparr>"
  have l: "content ?long = ''[n] w (msg)'' @ [CHR 0x0A] @ ''alice: '' @ replicate 3000 (CHR ''x'')"
    unfolding content_def header_def author_def body_def or_else_def
    by (simp, rule strip_id) (simp_all add: is_space_def)
  have s: "content ?short = ''[n] w (msg)'' @ [CHR 0x0A] @ ''bob:''"
    by (simp add: content_def header_def author_def body_def or_else_def strip_def is_space_def)
  have "2000 < length (content ?long)" "length (content ?short) \<le> 2000"
    by (simp_all add: l s)
  then show ?thesis
    using to_discord_message_truncation [of ?long] to_discord_message_truncation [of ?short]
    by (simp add: l s)
qed

section \<open>Channel resolution\<close>

text \<open>
  C3. \<open>_resolve_channel_id\<close> returns the mapped id exactly when the recipient is there,
  not empty and a key of the channel map, and the default channel id otherwise; it logs
  one warning exactly when the recipient is there, not empty, not \<open>self\<close> and not a key
  of the map, and nothing otherwise.
\<close>

theorem resolve_channel_id_spec:
  "fst (resolve_channel_id cfg r) =
     (if \<exists>s. r = Some s \<and> s \<noteq> [] \<and> s \<in> dom (channel_map cfg)
      then channel_map cfg (the r) else Some (default_channel_id cfg))
   \<and> snd (resolve_channel_id cfg r) =
     (if \<exists>s. r = Some s \<and> s \<noteq> [] \<and> s \<noteq> ''self'' \<and> s \<notin> dom (channel_map cfg)
      then [RecipientNotInMap (the r) (default_channel_id cfg)] else [])"
  by (auto simp: resolve_channel_id_def split: option.splits)

theorem resolve_channel_id_spec_witness:
  "resolve_channel_id \<lparr>channel_map = [''known'' \<mapsto> 42], default_channel_id = 7\<rparr> (Some ''self'')
     = (Some 7, [])
   \<and> resolve_channel_id \<lparr>channel_map = [''known'' \<mapsto> 42], default_channel_id = 7\<rparr> None
     = (Some 7, [])
   \<and> resolve_channel_id \<lparr>channel_map = [''known'' \<mapsto> 42], default_channel_id = 7\<rparr> (Some [])
     = (Some 7, [])
   \<and> resolve_channel_id \<lparr>channel_map = [''known'' \<mapsto> 42], default_channel_id = 7\<rparr>
       (Some ''unmapped'') = (Some 7, [RecipientNotInMap ''unmapped'' 7])
   \<and> resolve_channel_id \<lparr>channel_map = [''known'' \<mapsto> 42], default_channel_id = 7\<rparr>
       (Some ''known'') = (Some 42, [])"
proof -
  let ?cfg = "\<lparr>channel_map = [''known'' \<mapsto> 42], default_channel_id = 7\<rparr>"
  show ?thesis
    using resolve_channel_id_spec [of ?cfg "Some ''self''"] resolve_channel_id_spec [of ?cfg None]
      resolve_channel_id_spec [of ?cfg "Some []"] resolve_channel_id_spec [of ?cfg "Some ''unmapped''"]
      resolve_channel_id_spec [of ?cfg "Some ''known''"]
    by (simp add: prod_eq_iff)
qed

section \<open>The channel map\<close>

lemmas parse_eval =
  parse_channel_map_def parse_entry_def strip_def is_space_def is_int_space_def py_int_def
  unsigned_def
  is_digit_def digit_val_def int_max_str_digits_def Let_def

text \<open>What an entry does depends on the entry alone: it adds its own binding, if it has
  one, to the mapping it is given, and its warning is the same whatever was bound before.\<close>

lemma parse_entry_indep:
  "parse_entry e m = (m ++ fst (parse_entry e Map.empty), snd (parse_entry e Map.empty))"
  by (auto simp: parse_entry_def Let_def map_add_def fun_eq_iff split: option.splits)

lemma parse_entry_binds:
  "fst (parse_entry e Map.empty) k = Some v \<Longrightarrow> parse_entry e m = (m(k \<mapsto> v), [])"
  by (auto simp: parse_entry_def Let_def split: option.splits if_splits)

lemma parse_entries_append:
  "parse_entries (xs @ ys) m =
     (fst (parse_entries ys (fst (parse_entries xs m))),
      snd (parse_entries xs m) @ snd (parse_entries ys (fst (parse_entries xs m))))"
  by (induction xs arbitrary: m) (simp_all add: split_beta)

lemma parse_entries_unbound:
  "\<forall>e \<in> set es. fst (parse_entry e Map.empty) k = None \<Longrightarrow> fst (parse_entries es m) k = m k"
proof (induction es arbitrary: m)
  case Nil
  then show ?case by simp
next
  case (Cons e es)
  have "fst (parse_entry e m) k = m k"
    using Cons.prems by (subst parse_entry_indep) (simp add: map_add_def)
  then show ?case using Cons by (simp add: split_beta)
qed

lemma parse_entries_warnings:
  "snd (parse_entries es m) = concat (map (\<lambda>e. snd (parse_entry e Map.empty)) es)"
proof (induction es arbitrary: m)
  case Nil
  then show ?case by simp
next
  case (Cons e es)
  have "snd (parse_entry e m) = snd (parse_entry e Map.empty)"
    by (subst parse_entry_indep) simp
  then show ?case using Cons by (simp add: split_beta)
qed

text \<open>
  C8. The channel map \<open>a=1,b=,=2,c=xyz,d=7\<close> is parsed to the mapping of \<open>a\<close> to 1 and
  \<open>d\<close> to 7, with three warnings: the missing id of \<open>b=\<close>, the missing recipient of
  \<open>=2\<close>, the id \<open>xyz\<close> of \<open>c\<close> that is no number. An entry that is warned about is
  skipped: it leaves the mapping as it was, it logs one warning, and the parse goes on
  (the parser is total, no entry ends it).
\<close>

theorem parse_channel_map_example:
  "parse_channel_map (Some ''a=1,b=,=2,c=xyz,d=7'') =
     ([''a'' \<mapsto> 1, ''d'' \<mapsto> 7],
      [MalformedEntry ''b='', MalformedEntry ''=2'', InvalidChannelId ''xyz'' ''c''])
   \<and> (snd (parse_entry entry m) \<noteq> [] \<longrightarrow> fst (parse_entry entry m) = m)
   \<and> length (snd (parse_entry entry m)) \<le> 1"
  by (rule conjI, simp add: parse_eval)
     (auto simp: parse_entry_def Let_def split: option.splits if_splits)

theorem parse_channel_map_example_witness:
  "snd (parse_entry ''c=xyz'' [''a'' \<mapsto> 1]) = [InvalidChannelId ''xyz'' ''c'']
   \<and> fst (parse_entry ''c=xyz'' [''a'' \<mapsto> 1]) = [''a'' \<mapsto> 1]"
proof -
  have "snd (parse_entry ''c=xyz'' [''a'' \<mapsto> 1]) = [InvalidChannelId ''xyz'' ''c'']"
    by (simp add: parse_eval)
  then show ?thesis
    using parse_channel_map_example [of "''c=xyz''" "[''a'' \<mapsto> 1]"] by simp
qed

text \<open>
  C9, as the specification states it, fails: in \<open>a=1,a=2\<close> the second entry for \<open>a\<close> is
  not skipped, nothing is logged, and \<open>a\<close> is bound to 2, not to 1.
\<close>

theorem parse_channel_map_duplicate_counterexample:
  "parse_channel_map (Some ''a=1,a=2'') = ([''a'' \<mapsto> 2], [])
   \<and> fst (parse_channel_map (Some ''a=1,a=2'')) ''a'' \<noteq> Some 1
   \<and> snd (parse_channel_map (Some ''a=1,a=2'')) = []"
  by (simp add: parse_eval)

text \<open>
  C9, amended. In a channel map with several entries for one recipient no entry is
  skipped for being a duplicate and no warning is logged for it: a well-formed entry
  binds its recipient whatever was bound before, so the recipient ends bound by its last
  well-formed entry, and the warnings of the parse are those of the malformed entries,
  in order.
\<close>

theorem parse_channel_map_last_binding:
  assumes "raw \<noteq> []"
    and "split (CHR '','') raw = es @ e # es'"
    and "fst (parse_entry e Map.empty) k = Some v"
    and "\<forall>e' \<in> set es'. fst (parse_entry e' Map.empty) k = None"
  shows "fst (parse_channel_map (Some raw)) k = Some v
    \<and> snd (parse_entry e (fst (parse_entries es Map.empty))) = []
    \<and> snd (parse_channel_map (Some raw)) =
        concat (map (\<lambda>e. snd (parse_entry e Map.empty)) (split (CHR '','') raw))"
proof -
  let ?m = "fst (parse_entries es Map.empty)"
  have e: "parse_entry e ?m = (?m(k \<mapsto> v), [])"
    using assms(3) by (rule parse_entry_binds)
  have "fst (parse_entries (e # es') ?m) k = (?m(k \<mapsto> v)) k"
    using assms(4) by (simp add: e parse_entries_unbound)
  then have "fst (parse_entries (es @ e # es') Map.empty) k = Some v"
    by (simp add: parse_entries_append)
  then show ?thesis
    using assms(1,2) e by (simp add: parse_channel_map_def parse_entries_warnings)
qed

theorem parse_channel_map_last_binding_witness:
  "fst (parse_channel_map (Some ''a=1,b=x,a=2,c=3'')) ''a'' = Some 2
   \<and> snd (parse_channel_map (Some ''a=1,b=x,a=2,c=3'')) = [InvalidChannelId ''x'' ''b'']"
proof -
  have 1: "split (CHR '','') ''a=1,b=x,a=2,c=3'' = [''a=1'', ''b=x''] @ ''a=2'' # [''c=3'']"
    by simp
  have 2: "fst (parse_entry ''a=2'' Map.empty) ''a'' = Some 2"
    by (simp add: parse_eval)
  have 3: "\<forall>e' \<in> set [''c=3'']. fst (parse_entry e' Map.empty) ''a'' = None"
    by (simp add: parse_eval)
  have 4: "''a=1,b=x,a=2,c=3'' \<noteq> []" by simp
  show ?thesis
    using parse_channel_map_last_binding [OF 4 1 2 3]
    by (simp add: parse_eval)
qed

section \<open>Traces of the delivery\<close>

lemma emit_simps [simp]:
  "events (emit e s) = events s @ [e]"
  "push_table (emit e s) = push_table s"
  "channel_cache (emit e s) = channel_cache s"
  by (simp_all add: emit_def)

lemma logs_simps [simp]:
  "events (logs ls s) = events s @ map Log ls"
  "push_table (logs ls s) = push_table s"
  "channel_cache (logs ls s) = channel_cache s"
  by (simp_all add: logs_def)

lemma fetch_channel_hit:
  "channel_cache s cid = Some ch \<Longrightarrow> fetch_channel en cid s = (Inr (Some ch), s)"
  by (simp add: fetch_channel_def)

lemma fetch_channel_miss:
  assumes "fetch_channel en cid s = (r, s')" and "channel_cache s cid = None"
  shows "\<exists>F. events s' = events s @ GetChannel cid # F
           \<and> (F = [] \<or> F = [Log (NotMessageable cid)] \<or> F = [FetchChannel cid]
               \<or> F = [FetchChannel cid, Log (NotMessageable cid)]
               \<or> (\<exists>e. F = [FetchChannel cid, Log (FailedToFetchChannel cid e)]))"
    and "push_table s' = push_table s"
    and "case r of Inr (Some ch) \<Rightarrow>
             messageable ch \<and> channel_cache s' = (channel_cache s)(cid \<mapsto> ch)
         | _ \<Rightarrow> channel_cache s' = channel_cache s"
  using assms
  by (auto simp: fetch_channel_def cache_if_messageable_def Let_def
      split: option.splits sum.splits if_splits)

lemma fetch_channel_thrown:
  "fetch_channel en cid s = (Inl t, s') \<Longrightarrow> t = CancelledError"
  by (auto simp: fetch_channel_def cache_if_messageable_def Let_def
      split: option.splits sum.splits if_splits)

lemma resolve_channel_id_some: "\<exists>cid. fst (resolve_channel_id cfg r) = Some cid"
  by (auto simp: resolve_channel_id_def split: option.splits)

lemma deliver_notification_cases:
  assumes "deliver_notification en cfg n s = (x, s')"
  obtains
    (no_channel) cid W s2 where
      "resolve_channel_id cfg (recipient n) = (Some cid, W)"
      "fetch_channel en cid (logs W s) = (Inr None, s2)"
      "x = None"
      "s' = emit (Log (SkippingNoChannel (push_id n) cid)) s2"
  | (send_failed) cid W s2 ch e where
      "resolve_channel_id cfg (recipient n) = (Some cid, W)"
      "fetch_channel en cid (logs W s) = (Inr (Some ch), s2)"
      "x = None"
      "s' = emit (Log (FailedToSend (push_id n) e))
              (emit (Send (push_id n) ch (fst (to_discord_message n)) (Some e))
                 (logs (snd (to_discord_message n)) s2))"
  | (delete_failed) cid W s2 ch e where
      "resolve_channel_id cfg (recipient n) = (Some cid, W)"
      "fetch_channel en cid (logs W s) = (Inr (Some ch), s2)"
      "x = Some (Exception e)"
      "s' = emit (Delete (push_id n) (Some e))
              (emit (Send (push_id n) ch (fst (to_discord_message n)) None)
                 (logs (snd (to_discord_message n)) s2))"
  | (deleted) cid W s2 ch where
      "resolve_channel_id cfg (recipient n) = (Some cid, W)"
      "fetch_channel en cid (logs W s) = (Inr (Some ch), s2)"
      "x = None"
      "s' = emit (Delete (push_id n) None)
              ((emit (Send (push_id n) ch (fst (to_discord_message n)) None)
                 (logs (snd (to_discord_message n)) s2))
               \<lparr>push_table := filter (\<lambda>r. row_id r \<noteq> push_id n) (push_table s2)\<rparr>)"
  | (fetch_cancelled) cid W where
      "resolve_channel_id cfg (recipient n) = (Some cid, W)"
      "fetch_channel en cid (logs W s) = (Inl CancelledError, s')"
      "x = Some CancelledError"
  | (send_cancelled) cid W s2 ch where
      "resolve_channel_id cfg (recipient n) = (Some cid, W)"
      "fetch_channel en cid (logs W s) = (Inr (Some ch), s2)"
      "x = Some CancelledError"
      "s' = logs (snd (to_discord_message n)) s2"
      "cancelled en (now s')"
  | (delete_cancelled) cid W s2 ch where
      "resolve_channel_id cfg (recipient n) = (Some cid, W)"
      "fetch_channel en cid (logs W s) = (Inr (Some ch), s2)"
      "x = Some CancelledError"
      "s' = emit (Send (push_id n) ch (fst (to_discord_message n)) None)
              (logs (snd (to_discord_message n)) s2)"
      "cancelled en (now s')"
proof -
  obtain cid W where r: "resolve_channel_id cfg (recipient n) = (Some cid, W)"
    using resolve_channel_id_some [of cfg "recipient n"]
    by (cases "resolve_channel_id cfg (recipient n)") auto
  obtain c s2 where f: "fetch_channel en cid (logs W s) = (c, s2)"
    by (cases "fetch_channel en cid (logs W s)")
  show thesis
  proof (cases c)
    case (Inl t)
    then have "t = CancelledError" using f fetch_channel_thrown by blast
    then show ?thesis
      using assms r f Inl fetch_cancelled [of cid W] by (auto simp: deliver_notification_def)
  next
    case (Inr oc)
    show ?thesis
    proof (cases oc)
      case None
      then show ?thesis
        using assms r f Inr no_channel by (auto simp: deliver_notification_def)
    next
      case (Some ch)
      let ?s3 = "logs (snd (to_discord_message n)) s2"
      let ?t = "fst (to_discord_message n)"
      note c = \<open>c = Inr oc\<close> \<open>oc = Some ch\<close>
      show ?thesis
      proof (cases "cancelled en (now ?s3)")
        case True
        then show ?thesis
          using assms r f c send_cancelled [of cid W ch s2]
          by (auto simp: deliver_notification_def split_beta)
      next
        case False
        note ns = False
        show ?thesis
        proof (cases "send en (now ?s3) ch ?t")
          case (Some e)
          then show ?thesis
            using assms r f c ns send_failed [of cid W ch s2 e]
            by (auto simp: deliver_notification_def split_beta)
        next
          case None
          note sent = None
          let ?s4 = "emit (Send (push_id n) ch ?t None) ?s3"
          show ?thesis
          proof (cases "cancelled en (now ?s4)")
            case True
            then show ?thesis
              using assms r f c ns sent delete_cancelled [of cid W ch s2]
              by (auto simp: deliver_notification_def split_beta Let_def)
          next
            case False
            note nd = False
            show ?thesis
            proof (cases "delete_raises en (now ?s4) (push_id n)")
              case (Some e)
              then show ?thesis
                using assms r f c ns sent nd delete_failed [of cid W ch s2 e]
                by (auto simp: deliver_notification_def split_beta Let_def delete_push_row_def)
            next
              case None
              then show ?thesis
                using assms r f c ns sent nd deleted [of cid W ch s2]
                by (auto simp: deliver_notification_def split_beta Let_def delete_push_row_def)
            qed
          qed
        qed
      qed
    qed
  qed
qed

lemma resolve_channel_id_quiet:
  "list_all quiet (map Log (snd (resolve_channel_id cfg r)))"
  by (auto simp: resolve_channel_id_def split: option.splits)

lemma to_discord_message_quiet:
  "list_all quiet (map Log (snd (to_discord_message n)))"
  by (simp add: to_discord_message_def)

lemma fetch_channel_quiet:
  assumes "fetch_channel en cid s = (r, s')"
  shows "\<exists>F. events s' = events s @ F \<and> list_all quiet F" and "push_table s' = push_table s"
proof -
  show "\<exists>F. events s' = events s @ F \<and> list_all quiet F"
  proof (cases "channel_cache s cid")
    case None
    from fetch_channel_miss(1) [OF assms None] show ?thesis by auto
  next
    case (Some ch)
    then show ?thesis using assms by (simp add: fetch_channel_hit)
  qed
  show "push_table s' = push_table s"
    using assms fetch_channel_miss(2) [OF assms] fetch_channel_hit [of s cid _ en]
    by (cases "channel_cache s cid") auto
qed

text \<open>
  The trace of one pass of the delivery loop: quiet events, then how the pass ended. It
  ended with the log of the skip, with the send that raised and its log, with the send
  and the delete (that raised, or that took the row), or it was cancelled, before the
  send or between the send and the delete.
\<close>

lemma deliver_notification_shape:
  assumes "deliver_notification en cfg n s = (x, s')"
  shows "\<exists>Q T. events s' = events s @ Q @ T \<and> list_all quiet Q \<and>
     ((\<exists>cid. T = [Log (SkippingNoChannel (push_id n) cid)] \<and> x = None
         \<and> push_table s' = push_table s)
    \<or> (\<exists>ch e. T = [Send (push_id n) ch (fst (to_discord_message n)) (Some e),
                     Log (FailedToSend (push_id n) e)] \<and> x = None
         \<and> push_table s' = push_table s)
    \<or> (\<exists>ch e. T = [Send (push_id n) ch (fst (to_discord_message n)) None,
                     Delete (push_id n) (Some e)] \<and> x = Some (Exception e)
         \<and> push_table s' = push_table s)
    \<or> (\<exists>ch. T = [Send (push_id n) ch (fst (to_discord_message n)) None,
                   Delete (push_id n) None] \<and> x = None
         \<and> push_table s' = filter (\<lambda>r. row_id r \<noteq> push_id n) (push_table s))
    \<or> (T = [] \<and> x = Some CancelledError \<and> push_table s' = push_table s)
    \<or> (\<exists>ch. T = [Send (push_id n) ch (fst (to_discord_message n)) None]
         \<and> x = Some CancelledError \<and> push_table s' = push_table s))"
  using assms
proof (cases rule: deliver_notification_cases)
  case (no_channel cid W s2)
  from fetch_channel_quiet [OF no_channel(2)] obtain F where
    F: "events s2 = events s @ map Log W @ F" "list_all quiet F" "push_table s2 = push_table s"
    by auto
  have W: "list_all quiet (map Log W)"
    using resolve_channel_id_quiet [of cfg "recipient n"] no_channel(1) by simp
  show ?thesis
    by (rule exI [of _ "map Log W @ F"], rule exI [of _ "[Log (SkippingNoChannel (push_id n) cid)]"])
       (use F W no_channel in simp)
next
  case (send_failed cid W s2 ch e)
  from fetch_channel_quiet [OF send_failed(2)] obtain F where
    F: "events s2 = events s @ map Log W @ F" "list_all quiet F" "push_table s2 = push_table s"
    by auto
  have W: "list_all quiet (map Log W)"
    using resolve_channel_id_quiet [of cfg "recipient n"] send_failed(1) by simp
  show ?thesis
    by (rule exI [of _ "map Log W @ F @ map Log (snd (to_discord_message n))"],
        rule exI [of _ "[Send (push_id n) ch (fst (to_discord_message n)) (Some e),
                     Log (FailedToSend (push_id n) e)]"])
       (use F W send_failed to_discord_message_quiet [of n] in simp)
next
  case (delete_failed cid W s2 ch e)
  from fetch_channel_quiet [OF delete_failed(2)] obtain F where
    F: "events s2 = events s @ map Log W @ F" "list_all quiet F" "push_table s2 = push_table s"
    by auto
  have W: "list_all quiet (map Log W)"
    using resolve_channel_id_quiet [of cfg "recipient n"] delete_failed(1) by simp
  show ?thesis
    by (rule exI [of _ "map Log W @ F @ map Log (snd (to_discord_message n))"],
        rule exI [of _ "[Send (push_id n) ch (fst (to_discord_message n)) None,
                     Delete (push_id n) (Some e)]"])
       (use F W delete_failed to_discord_message_quiet [of n] in simp)
next
  case (deleted cid W s2 ch)
  from fetch_channel_quiet [OF deleted(2)] obtain F where
    F: "events s2 = events s @ map Log W @ F" "list_all quiet F" "push_table s2 = push_table s"
    by auto
  have W: "list_all quiet (map Log W)"
    using resolve_channel_id_quiet [of cfg "recipient n"] deleted(1) by simp
  show ?thesis
    by (rule exI [of _ "map Log W @ F @ map Log (snd (to_discord_message n))"],
        rule exI [of _ "[Send (push_id n) ch (fst (to_discord_message n)) None,
                     Delete (push_id n) None]"])
       (use F W deleted to_discord_message_quiet [of n] in simp)
next
  case (fetch_cancelled cid W)
  from fetch_channel_quiet [OF fetch_cancelled(2)] obtain F where
    F: "events s' = events s @ map Log W @ F" "list_all quiet F" "push_table s' = push_table s"
    by auto
  have W: "list_all quiet (map Log W)"
    using resolve_channel_id_quiet [of cfg "recipient n"] fetch_cancelled(1) by simp
  show ?thesis
    by (rule exI [of _ "map Log W @ F"], rule exI [of _ "[]"])
       (use F W fetch_cancelled in simp)
next
  case (send_cancelled cid W s2 ch)
  from fetch_channel_quiet [OF send_cancelled(2)] obtain F where
    F: "events s2 = events s @ map Log W @ F" "list_all quiet F" "push_table s2 = push_table s"
    by auto
  have W: "list_all quiet (map Log W)"
    using resolve_channel_id_quiet [of cfg "recipient n"] send_cancelled(1) by simp
  show ?thesis
    by (rule exI [of _ "map Log W @ F @ map Log (snd (to_discord_message n))"],
        rule exI [of _ "[]"])
       (use F W send_cancelled to_discord_message_quiet [of n] in simp)
next
  case (delete_cancelled cid W s2 ch)
  from fetch_channel_quiet [OF delete_cancelled(2)] obtain F where
    F: "events s2 = events s @ map Log W @ F" "list_all quiet F" "push_table s2 = push_table s"
    by auto
  have W: "list_all quiet (map Log W)"
    using resolve_channel_id_quiet [of cfg "recipient n"] delete_cancelled(1) by simp
  show ?thesis
    by (rule exI [of _ "map Log W @ F @ map Log (snd (to_discord_message n))"],
        rule exI [of _ "[Send (push_id n) ch (fst (to_discord_message n)) None]"])
       (use F W delete_cancelled to_discord_message_quiet [of n] in simp)
qed

lemma new_events_append:
  "events s' = events s @ D \<Longrightarrow> new_events s s' = D"
  by (simp add: new_events_def)

lemma new_events_same [simp]: "new_events s s = []"
  by (simp add: new_events_def)

lemma quiet_facts:
  assumes "list_all quiet Q"
  shows "Delete i r \<notin> set Q" "Send i ch t r' \<notin> set Q" "Log (SkippingNoMapping i x) \<notin> set Q"
    "Log (SkippingNoChannel i c) \<notin> set Q" "Select r'' \<notin> set Q" "Sleep \<notin> set Q"
    "concat (map handled Q) = []" "Log (UnexpectedError e) \<notin> set Q"
proof -
  have "\<And>e. e \<in> set Q \<Longrightarrow> quiet e" using assms by (simp add: list_all_iff)
  then show "Delete i r \<notin> set Q" "Send i ch t r' \<notin> set Q" "Log (SkippingNoMapping i x) \<notin> set Q"
    "Log (SkippingNoChannel i c) \<notin> set Q" "Select r'' \<notin> set Q" "Sleep \<notin> set Q"
    "Log (UnexpectedError e) \<notin> set Q"
    by fastforce+
  show "concat (map handled Q) = []"
    using assms
  proof (induction Q)
    case Nil
    then show ?case by simp
  next
    case (Cons e Q)
    then have "quiet e" by simp
    then have "handled e = []" by (cases e rule: quiet.cases) simp_all
    then show ?case using Cons by simp
  qed
qed

text \<open>What one pass of the delivery loop adds to the trace and does to the table.\<close>

lemma deliver_notification_step:
  assumes "deliver_notification en cfg n s = (x, s')"
  shows "events s' = events s @ new_events s s'"
    and "Delete i r \<in> set (new_events s s') \<Longrightarrow>
           i = push_id n \<and> (\<exists>pre ch. new_events s s' =
             pre @ [Send (push_id n) ch (fst (to_discord_message n)) None, Delete (push_id n) r])"
    and "Send i ch t (Some e) \<in> set (new_events s s') \<Longrightarrow>
           (\<forall>j r. Delete j r \<notin> set (new_events s s')) \<and> push_table s' = push_table s \<and> x = None"
    and "Send i ch t r' \<in> set (new_events s s') \<Longrightarrow> i = push_id n"
    and "push_table s' = filter (\<lambda>r. Delete (row_id r) None \<notin> set (new_events s s')) (push_table s)"
    and "concat (map handled (new_events s s')) = [push_id n]
         \<or> concat (map handled (new_events s s')) = [] \<and> x = Some CancelledError"
    and "Log (SkippingNoMapping i y) \<notin> set (new_events s s')"
    and "Select r'' \<notin> set (new_events s s')" and "Sleep \<notin> set (new_events s s')"
    and "x = None \<Longrightarrow> concat (map handled (new_events s s')) = [push_id n]"
    and "(x = Some (Exception e')) = (\<exists>j. Delete j (Some e') \<in> set (new_events s s'))"
    and "Delete j (Some e') \<in> set (new_events s s') \<Longrightarrow>
           \<exists>pre. new_events s s' = pre @ [Delete j (Some e')]"
    and "x = None \<or> x = Some CancelledError \<or> (\<exists>e. x = Some (Exception e))"
    and "Log (UnexpectedError e'') \<notin> set (new_events s s')"
proof -
  from deliver_notification_shape [OF assms] obtain Q T where
    ev: "events s' = events s @ Q @ T" and q: "list_all quiet Q" and
    T: "(\<exists>cid. T = [Log (SkippingNoChannel (push_id n) cid)] \<and> x = None
         \<and> push_table s' = push_table s)
    \<or> (\<exists>ch e. T = [Send (push_id n) ch (fst (to_discord_message n)) (Some e),
                     Log (FailedToSend (push_id n) e)] \<and> x = None
         \<and> push_table s' = push_table s)
    \<or> (\<exists>ch e. T = [Send (push_id n) ch (fst (to_discord_message n)) None,
                     Delete (push_id n) (Some e)] \<and> x = Some (Exception e)
         \<and> push_table s' = push_table s)
    \<or> (\<exists>ch. T = [Send (push_id n) ch (fst (to_discord_message n)) None,
                   Delete (push_id n) None] \<and> x = None
         \<and> push_table s' = filter (\<lambda>r. row_id r \<noteq> push_id n) (push_table s))
    \<or> (T = [] \<and> x = Some CancelledError \<and> push_table s' = push_table s)
    \<or> (\<exists>ch. T = [Send (push_id n) ch (fst (to_discord_message n)) None]
         \<and> x = Some CancelledError \<and> push_table s' = push_table s)"
    by blast
  have n: "new_events s s' = Q @ T" using ev by (rule new_events_append)
  note qf = quiet_facts [OF q]
  show "events s' = events s @ new_events s s'" using ev n by simp
  show "Delete i r \<in> set (new_events s s') \<Longrightarrow>
           i = push_id n \<and> (\<exists>pre ch. new_events s s' =
             pre @ [Send (push_id n) ch (fst (to_discord_message n)) None, Delete (push_id n) r])"
    using T qf(1) unfolding n by auto
  show "Send i ch t (Some e) \<in> set (new_events s s') \<Longrightarrow>
           (\<forall>j r. Delete j r \<notin> set (new_events s s')) \<and> push_table s' = push_table s \<and> x = None"
    using T qf(1,2) unfolding n by auto
  show "Send i ch t r' \<in> set (new_events s s') \<Longrightarrow> i = push_id n"
    using T qf(2) unfolding n by auto
  show "push_table s' = filter (\<lambda>r. Delete (row_id r) None \<notin> set (new_events s s')) (push_table s)"
    using T qf(1) unfolding n by auto
  show "concat (map handled (new_events s s')) = [push_id n]
         \<or> concat (map handled (new_events s s')) = [] \<and> x = Some CancelledError"
    using T qf(7) unfolding n by auto
  show "Log (SkippingNoMapping i y) \<notin> set (new_events s s')"
    using T qf(3) unfolding n by auto
  show "Select r'' \<notin> set (new_events s s')" "Sleep \<notin> set (new_events s s')"
    using T qf(5,6) unfolding n by auto
  show "x = None \<Longrightarrow> concat (map handled (new_events s s')) = [push_id n]"
    using T qf(7) unfolding n by auto
  show "(x = Some (Exception e')) = (\<exists>j. Delete j (Some e') \<in> set (new_events s s'))"
    using T qf(1) unfolding n by auto
  show "Delete j (Some e') \<in> set (new_events s s') \<Longrightarrow>
           \<exists>pre. new_events s s' = pre @ [Delete j (Some e')]"
    using T qf(1) unfolding n by auto
  show "x = None \<or> x = Some CancelledError \<or> (\<exists>e. x = Some (Exception e))"
    using T by auto
  show "Log (UnexpectedError e'') \<notin> set (new_events s s')"
    using T qf(8) unfolding n by auto
qed

lemma new_events_trans:
  "events s1 = events s @ new_events s s1 \<Longrightarrow> events s2 = events s1 @ new_events s1 s2 \<Longrightarrow>
   new_events s s2 = new_events s s1 @ new_events s1 s2"
  by (metis append.assoc new_events_append)

lemma deliver_notifications_Cons_cases:
  assumes "deliver_notifications en cfg (n # ns) s = (x, s')"
  obtains (raised) e where "deliver_notification en cfg n s = (Some e, s')" "x = Some e"
  | (go) s1 where "deliver_notification en cfg n s = (None, s1)"
      "deliver_notifications en cfg ns s1 = (x, s')"
  using assms by (auto split: prod.splits option.splits)

lemma deliver_notifications_extends:
  "deliver_notifications en cfg ns s = (x, s') \<Longrightarrow> events s' = events s @ new_events s s'"
proof (induction ns arbitrary: s)
  case Nil
  then show ?case by simp
next
  case (Cons n ns)
  from Cons.prems show ?case
  proof (cases rule: deliver_notifications_Cons_cases)
    case (raised e)
    from raised(1) show ?thesis by (rule deliver_notification_step(1))
  next
    case (go s1)
    from deliver_notification_step(1) [OF go(1)] Cons.IH [OF go(2)]
    show ?thesis by (metis append.assoc new_events_append)
  qed
qed

lemma deliver_notifications_split:
  assumes "deliver_notification en cfg n s = (None, s1)"
    and "deliver_notifications en cfg ns s1 = (x, s')"
  shows "new_events s s' = new_events s s1 @ new_events s1 s'"
  using deliver_notification_step(1) [OF assms(1)] deliver_notifications_extends [OF assms(2)]
  by (rule new_events_trans)

lemma deliver_notifications_delete:
  "deliver_notifications en cfg ns s = (x, s') \<Longrightarrow> Delete i r \<in> set (new_events s s') \<Longrightarrow>
   \<exists>pre post ch n. n \<in> set ns \<and> push_id n = i \<and>
     new_events s s' = pre @ [Send i ch (fst (to_discord_message n)) None, Delete i r] @ post"
proof (induction ns arbitrary: s)
  case Nil
  then show ?case by simp
next
  case (Cons n ns)
  from Cons.prems(1) show ?case
  proof (cases rule: deliver_notifications_Cons_cases)
    case (raised e)
    from deliver_notification_step(2) [OF raised(1) Cons.prems(2)]
    obtain pre ch where "i = push_id n"
      "new_events s s' = pre @ [Send i ch (fst (to_discord_message n)) None, Delete i r] @ []"
      by auto
    then show ?thesis by (intro exI [of _ pre] exI [of _ "[]"] exI [of _ ch] exI [of _ n]) simp
  next
    case (go s1)
    note sp = deliver_notifications_split [OF go]
    from Cons.prems(2) sp
    consider "Delete i r \<in> set (new_events s s1)" | "Delete i r \<in> set (new_events s1 s')"
      by auto
    then show ?thesis
    proof cases
      case 1
      from deliver_notification_step(2) [OF go(1) 1]
      obtain pre ch where "i = push_id n"
        "new_events s s1 = pre @ [Send i ch (fst (to_discord_message n)) None, Delete i r]"
        by auto
      then show ?thesis
        by (intro exI [of _ pre] exI [of _ "new_events s1 s'"] exI [of _ ch] exI [of _ n])
           (simp add: sp)
    next
      case 2
      from Cons.IH [OF go(2) 2] obtain pre post ch m where
        "m \<in> set ns" "push_id m = i"
        "new_events s1 s' = pre @ [Send i ch (fst (to_discord_message m)) None, Delete i r] @ post"
        by blast
      then show ?thesis
        by (intro exI [of _ "new_events s s1 @ pre"] exI [of _ post] exI [of _ ch] exI [of _ m])
           (simp add: sp)
    qed
  qed
qed

lemma deliver_notifications_send_id:
  "deliver_notifications en cfg ns s = (x, s') \<Longrightarrow> Send i ch t r \<in> set (new_events s s') \<Longrightarrow>
   i \<in> push_id ` set ns"
proof (induction ns arbitrary: s)
  case Nil
  then show ?case by simp
next
  case (Cons n ns)
  from Cons.prems(1) show ?case
  proof (cases rule: deliver_notifications_Cons_cases)
    case (raised e)
    from deliver_notification_step(4) [OF raised(1) Cons.prems(2)] show ?thesis by simp
  next
    case (go s1)
    note sp = deliver_notifications_split [OF go]
    from Cons.prems(2) sp
    consider "Send i ch t r \<in> set (new_events s s1)" | "Send i ch t r \<in> set (new_events s1 s')"
      by auto
    then show ?thesis
    proof cases
      case 1
      from deliver_notification_step(4) [OF go(1) 1] show ?thesis by simp
    next
      case 2
      from Cons.IH [OF go(2) 2] show ?thesis by simp
    qed
  qed
qed

lemma deliver_notifications_table:
  "deliver_notifications en cfg ns s = (x, s') \<Longrightarrow>
   push_table s' = filter (\<lambda>r. Delete (row_id r) None \<notin> set (new_events s s')) (push_table s)"
proof (induction ns arbitrary: s)
  case Nil
  then show ?case by simp
next
  case (Cons n ns)
  from Cons.prems(1) show ?case
  proof (cases rule: deliver_notifications_Cons_cases)
    case (raised e)
    from raised(1) show ?thesis by (rule deliver_notification_step(5))
  next
    case (go s1)
    note sp = deliver_notifications_split [OF go]
    show ?thesis
      by (subst Cons.IH [OF go(2)], subst deliver_notification_step(5) [OF go(1)])
         (auto simp: sp intro: filter_cong)
  qed
qed

lemma deliver_notifications_handled:
  "deliver_notifications en cfg ns s = (x, s') \<Longrightarrow>
   \<exists>k. concat (map handled (new_events s s')) = map push_id (take k ns)
        \<and> (x = None \<longrightarrow> k = length ns)"
proof (induction ns arbitrary: s)
  case Nil
  then show ?case by simp
next
  case (Cons n ns)
  from Cons.prems(1) show ?case
  proof (cases rule: deliver_notifications_Cons_cases)
    case (raised e)
    from deliver_notification_step(6) [OF raised(1)]
    consider "concat (map handled (new_events s s')) = [push_id n]"
      | "concat (map handled (new_events s s')) = []" by blast
    then show ?thesis
    proof cases
      case 1
      then show ?thesis using raised(2) by (intro exI [of _ 1]) simp
    next
      case 2
      then show ?thesis using raised(2) by (intro exI [of _ 0]) simp
    qed
  next
    case (go s1)
    note sp = deliver_notifications_split [OF go]
    from Cons.IH [OF go(2)] obtain k where
      "concat (map handled (new_events s1 s')) = map push_id (take k ns)"
      "x = None \<longrightarrow> k = length ns" by blast
    then show ?thesis
      using deliver_notification_step(10) [OF go(1)]
      by (intro exI [of _ "Suc k"]) (simp add: sp)
  qed
qed

lemma deliver_notifications_never:
  "deliver_notifications en cfg ns s = (x, s') \<Longrightarrow>
   Log (SkippingNoMapping i y) \<notin> set (new_events s s')
   \<and> Select r \<notin> set (new_events s s') \<and> Sleep \<notin> set (new_events s s')
   \<and> Log (UnexpectedError e) \<notin> set (new_events s s')"
proof (induction ns arbitrary: s)
  case Nil
  then show ?case by simp
next
  case (Cons n ns)
  from Cons.prems(1) show ?case
  proof (cases rule: deliver_notifications_Cons_cases)
    case (raised t)
    then show ?thesis using deliver_notification_step(7,8,9,14) [OF raised(1)] by simp
  next
    case (go s1)
    note sp = deliver_notifications_split [OF go]
    show ?thesis
      using deliver_notification_step(7,8,9,14) [OF go(1)] Cons.IH [OF go(2)] by (simp add: sp)
  qed
qed

lemma deliver_notifications_failed_send:
  "deliver_notifications en cfg ns s = (x, s') \<Longrightarrow> distinct (map push_id ns) \<Longrightarrow>
   Send i ch t (Some e) \<in> set (new_events s s') \<Longrightarrow> Delete i r \<notin> set (new_events s s')"
proof (induction ns arbitrary: s)
  case Nil
  then show ?case by simp
next
  case (Cons n ns)
  from Cons.prems(2) have fresh: "push_id n \<notin> push_id ` set ns" by simp
  from Cons.prems(1) show ?case
  proof (cases rule: deliver_notifications_Cons_cases)
    case (raised e')
    from deliver_notification_step(3) [OF raised(1)] Cons.prems(3) show ?thesis by blast
  next
    case (go s1)
    note sp = deliver_notifications_split [OF go]
    from Cons.prems(3) sp
    consider "Send i ch t (Some e) \<in> set (new_events s s1)"
      | "Send i ch t (Some e) \<in> set (new_events s1 s')"
      by auto
    then show ?thesis
    proof cases
      case 1
      from deliver_notification_step(3,4) [OF go(1) 1]
      have a: "Delete i r \<notin> set (new_events s s1)" and i: "i = push_id n" by auto
      have "Delete i r \<notin> set (new_events s1 s')"
      proof
        assume "Delete i r \<in> set (new_events s1 s')"
        from deliver_notifications_delete [OF go(2) this] have "i \<in> push_id ` set ns" by auto
        then show False using fresh i by simp
      qed
      then show ?thesis using a by (simp add: sp)
    next
      case 2
      from deliver_notifications_send_id [OF go(2) 2] fresh
      have "i \<noteq> push_id n" by metis
      then have "Delete i r \<notin> set (new_events s s1)"
        using deliver_notification_step(2) [OF go(1)] by blast
      moreover have "Delete i r \<notin> set (new_events s1 s')"
        using Cons.IH [OF go(2) _ 2] Cons.prems(2) by simp
      ultimately show ?thesis by (simp add: sp)
    qed
  qed
qed

text \<open>An error leaves the batch exactly when a delete raised it, and that delete is the
  last event of the batch; what else leaves the batch is the cancellation.\<close>

lemma deliver_notifications_error:
  "deliver_notifications en cfg ns s = (x, s') \<Longrightarrow>
   ((x = Some (Exception e)) = (\<exists>j. Delete j (Some e) \<in> set (new_events s s')))
   \<and> (\<forall>j. Delete j (Some e) \<in> set (new_events s s') \<longrightarrow>
        (\<exists>pre. new_events s s' = pre @ [Delete j (Some e)]))
   \<and> (x = None \<or> x = Some CancelledError \<or> (\<exists>e. x = Some (Exception e)))"
proof (induction ns arbitrary: s)
  case Nil
  then show ?case by auto
next
  case (Cons n ns)
  from Cons.prems(1) show ?case
  proof (cases rule: deliver_notifications_Cons_cases)
    case (raised t)
    note st = deliver_notification_step(11,12,13) [OF raised(1)]
    show ?thesis using st(1) [of e] st(2) [of _ e] st(3) raised(2) by blast
  next
    case (go s1)
    note sp = deliver_notifications_split [OF go]
    have none: "\<And>j. Delete j (Some e) \<notin> set (new_events s s1)"
      using deliver_notification_step(11) [OF go(1), of e] by simp
    from Cons.IH [OF go(2)] have ih:
      "(x = Some (Exception e)) = (\<exists>j. Delete j (Some e) \<in> set (new_events s1 s'))"
      "\<forall>j. Delete j (Some e) \<in> set (new_events s1 s') \<longrightarrow>
        (\<exists>pre. new_events s1 s' = pre @ [Delete j (Some e)])"
      "x = None \<or> x = Some CancelledError \<or> (\<exists>e. x = Some (Exception e))"
      by blast+
    have 1: "(x = Some (Exception e)) = (\<exists>j. Delete j (Some e) \<in> set (new_events s s'))"
      using ih(1) none by (simp add: sp)
    have 2: "\<exists>pre. new_events s s' = pre @ [Delete j (Some e)]"
      if "Delete j (Some e) \<in> set (new_events s s')" for j
    proof -
      from that none have "Delete j (Some e) \<in> set (new_events s1 s')" by (simp add: sp)
      with ih(2) obtain pre where "new_events s1 s' = pre @ [Delete j (Some e)]" by blast
      then have "new_events s s' = (new_events s s1 @ pre) @ [Delete j (Some e)]"
        by (simp add: sp)
      then show ?thesis by blast
    qed
    show ?thesis using 1 2 ih(3) by blast
  qed
qed

section \<open>Traces of a pass of the poll loop\<close>

lemma push_id_to_notification [simp]: "push_id (to_notification row) = row_id row"
  by (simp add: to_notification_def)

lemma map_insort_key: "map f (insort_key f x xs) = insort (f x) (map f xs)"
  by (induction xs) simp_all

lemma map_sort_key: "map f (sort_key f xs) = sort (map f xs)"
  by (induction xs) (simp_all add: map_insort_key)

lemma pending_ids: "map push_id (pending s) = sort (map row_id (push_table s))"
  by (simp add: pending_def comp_def map_sort_key)

lemma pending_set: "set (pending s) = to_notification ` set (push_table s)"
  by (simp add: pending_def)

lemma try_block_fetched:
  assumes "\<not> cancelled en (now s)" and "select_raises en (now s) = None"
  shows "try_block en cfg s = deliver_notifications en cfg (pending s) (emit (Select None) s)"
proof -
  have "fetch_pending_notifications en s = (Inr (pending s), emit (Select None) s)"
    using assms(2) by (simp add: fetch_pending_notifications_def pending_def)
  then show ?thesis
    using assms(1) by (cases "pending s") (simp_all add: try_block_def)
qed

lemma try_block_select_failed:
  assumes "\<not> cancelled en (now s)" and "select_raises en (now s) = Some e"
  shows "try_block en cfg s = (Some (Exception e), emit (Select (Some e)) s)"
  using assms by (simp add: try_block_def fetch_pending_notifications_def)

text \<open>
  A pass of the poll loop. Either its first await, the fetch, is cancelled and nothing
  happened; or the select was made, a batch was delivered (the pending rows, or nothing
  when the select raised), and the pass ended with \<open>L\<close>: the log of the error that left
  the \<open>try\<close> block, if one did, and the sleep, unless the pass was cancelled.
\<close>

lemma poll_cycle_delivery:
  assumes "poll_cycle en cfg s = (x, s')"
  obtains (cancelled) "cancelled en (now s)" "x = Some CancelledError" "s' = s"
  | (ran) r ns y s2 L where
      "\<not> cancelled en (now s)" "select_raises en (now s) = r"
      "deliver_notifications en cfg ns (emit (Select r) s) = (y, s2)"
      "ns = [] \<or> ns = pending s"
      "new_events s s' = Select r # new_events (emit (Select r) s) s2 @ L"
      "(L = [] \<and> x = Some CancelledError \<and> r = None
            \<and> (y = None \<or> y = Some CancelledError))
       \<or> (L = [Sleep] \<and> x = None \<and> r = None \<and> y = None \<and> ns = pending s)
       \<or> (\<exists>e. (r = Some e \<and> y = None \<or> r = None \<and> y = Some (Exception e))
              \<and> (L = [Log (UnexpectedError e)] \<and> x = Some CancelledError
                   \<or> L = [Log (UnexpectedError e), Sleep] \<and> x = None))"
      "push_table s' = push_table s2" "channel_cache s' = channel_cache s2"
      "r = None \<longrightarrow> ns = pending s"
      "events s' = events s @ Select r # new_events (emit (Select r) s) s2 @ L"
proof (cases "cancelled en (now s)")
  case True
  then have "poll_cycle en cfg s = (Some CancelledError, s)"
    by (simp add: poll_cycle_def try_block_def)
  then show ?thesis using assms True cancelled by simp
next
  case False
  note nc = False
  show ?thesis
  proof (cases "select_raises en (now s)")
    case (Some e)
    let ?s1 = "emit (Select (Some e)) s"
    let ?s2 = "emit (Log (UnexpectedError e)) ?s1"
    have t: "try_block en cfg s = (Some (Exception e), ?s1)"
      using nc Some by (rule try_block_select_failed)
    have d: "deliver_notifications en cfg [] ?s1 = (None, ?s1)" by simp
    show ?thesis
    proof (cases "cancelled en (now ?s2)")
      case True
      then have "poll_cycle en cfg s = (Some CancelledError, ?s2)"
        by (simp add: poll_cycle_def t asyncio_sleep_def)
      then have x: "x = Some CancelledError" "s' = ?s2" using assms by simp_all
      have ev: "events s' = events s @ Select (Some e) # new_events ?s1 ?s1 @ [Log (UnexpectedError e)]"
        by (simp add: x)
      show ?thesis
        using ran [of "Some e" "[]" None ?s1 "[Log (UnexpectedError e)]"] nc Some d x ev new_events_append [OF ev]
        by simp
    next
      case False
      then have "poll_cycle en cfg s = (None, emit Sleep ?s2)"
        by (simp add: poll_cycle_def t asyncio_sleep_def)
      then have x: "x = None" "s' = emit Sleep ?s2" using assms by simp_all
      have ev: "events s' = events s @ Select (Some e) # new_events ?s1 ?s1 @ [Log (UnexpectedError e), Sleep]"
        by (simp add: x)
      show ?thesis
        using ran [of "Some e" "[]" None ?s1 "[Log (UnexpectedError e), Sleep]"] nc Some d x ev new_events_append [OF ev]
        by simp
    qed
  next
    case None
    let ?s1 = "emit (Select None) s"
    obtain y s2 where d: "deliver_notifications en cfg (pending s) ?s1 = (y, s2)"
      by (cases "deliver_notifications en cfg (pending s) ?s1")
    have t: "try_block en cfg s = (y, s2)"
      using try_block_fetched [OF nc None] d by simp
    from deliver_notifications_extends [OF d]
    have e2: "events s2 = events s @ Select None # new_events ?s1 s2" by simp
    from deliver_notifications_error [OF d]
    consider "y = None" | "y = Some CancelledError" | e where "y = Some (Exception e)"
      by blast
    then show ?thesis
    proof cases
      case 1
      show ?thesis
      proof (cases "cancelled en (now s2)")
        case True
        then have "poll_cycle en cfg s = (Some CancelledError, s2)"
          by (simp add: poll_cycle_def t 1 asyncio_sleep_def)
        then have x: "x = Some CancelledError" "s' = s2" using assms by simp_all
        have ev: "events s' = events s @ Select None # new_events ?s1 s2 @ []"
          by (simp add: x e2)
        show ?thesis
          using ran [of None "pending s" y s2 "[]"] nc None d x 1 ev new_events_append [OF ev]
          by simp
      next
        case False
        then have "poll_cycle en cfg s = (None, emit Sleep s2)"
          by (simp add: poll_cycle_def t 1 asyncio_sleep_def)
        then have x: "x = None" "s' = emit Sleep s2" using assms by simp_all
        have ev: "events s' = events s @ Select None # new_events ?s1 s2 @ [Sleep]"
          by (simp add: x e2)
        show ?thesis
          using ran [of None "pending s" y s2 "[Sleep]"] nc None d x 1 ev new_events_append [OF ev]
          by simp
      qed
    next
      case 2
      then have "poll_cycle en cfg s = (Some CancelledError, s2)"
        by (simp add: poll_cycle_def t)
      then have x: "x = Some CancelledError" "s' = s2" using assms by simp_all
      have ev: "events s' = events s @ Select None # new_events ?s1 s2 @ []"
        by (simp add: x e2)
      show ?thesis
        using ran [of None "pending s" y s2 "[]"] nc None d x 2 ev new_events_append [OF ev]
        by simp
    next
      case 3
      let ?s3 = "emit (Log (UnexpectedError e)) s2"
      show ?thesis
      proof (cases "cancelled en (now ?s3)")
        case True
        then have "poll_cycle en cfg s = (Some CancelledError, ?s3)"
          by (simp add: poll_cycle_def t 3 asyncio_sleep_def)
        then have x: "x = Some CancelledError" "s' = ?s3" using assms by simp_all
        have ev: "events s' = events s @ Select None # new_events ?s1 s2 @ [Log (UnexpectedError e)]"
          by (simp add: x e2)
        show ?thesis
          using ran [of None "pending s" y s2 "[Log (UnexpectedError e)]"] nc None d x 3 ev new_events_append [OF ev]
          by simp
      next
        case False
        then have "poll_cycle en cfg s = (None, emit Sleep ?s3)"
          by (simp add: poll_cycle_def t 3 asyncio_sleep_def)
        then have x: "x = None" "s' = emit Sleep ?s3" using assms by simp_all
        have ev: "events s' = events s @ Select None # new_events ?s1 s2 @ [Log (UnexpectedError e), Sleep]"
          by (simp add: x e2)
        show ?thesis
          using ran [of None "pending s" y s2 "[Log (UnexpectedError e), Sleep]"] nc None d x 3 ev new_events_append [OF ev]
          by simp
      qed
    qed
  qed
qed

lemma poll_cycle_extends:
  assumes "poll_cycle en cfg s = (x, s')"
  shows "events s' = events s @ new_events s s'"
    and "x = None \<or> x = Some CancelledError"
proof -
  have "(\<exists>D. events s' = events s @ D) \<and> (x = None \<or> x = Some CancelledError)"
    using assms
  proof (cases rule: poll_cycle_delivery)
    case cancelled
    then show ?thesis by simp
  next
    case (ran r ns y s2 L)
    have "x = None \<or> x = Some CancelledError" using ran(6) by blast
    then show ?thesis using ran(10) by auto
  qed
  then show "events s' = events s @ new_events s s'" "x = None \<or> x = Some CancelledError"
    by (auto simp: new_events_def)
qed

lemma new_events_emit:
  "events s1 = events s @ new_events s s1 \<Longrightarrow> new_events s (emit e s1) = new_events s s1 @ [e]"
  by (rule new_events_append) simp

lemma new_events_logs:
  "events s1 = events s @ new_events s s1 \<Longrightarrow>
   new_events s (logs ls s1) = new_events s s1 @ map Log ls"
  by (rule new_events_append) simp

section \<open>Invariants\<close>

text \<open>
  A property \<open>I\<close> of the state that every pass of the delivery loop keeps, and a
  property \<open>p\<close> of the events that every pass emits, hold for the batch, for a pass of the poll
  loop and for the poll loop.
\<close>

lemma deliver_notifications_invariant:
  assumes step: "\<And>n s x s'. deliver_notification en cfg n s = (x, s') \<Longrightarrow> I s \<Longrightarrow>
      I s' \<and> list_all p (new_events s s')"
    and "deliver_notifications en cfg ns s = (x, s')" and "I s"
  shows "I s' \<and> list_all p (new_events s s')"
  using assms(2,3)
proof (induction ns arbitrary: s)
  case Nil
  then show ?case by simp
next
  case (Cons n ns)
  from Cons.prems(1) show ?case
  proof (cases rule: deliver_notifications_Cons_cases)
    case (raised e)
    from step [OF raised(1) Cons.prems(2)] show ?thesis .
  next
    case (go s1)
    from step [OF go(1) Cons.prems(2)] have 1: "I s1" "list_all p (new_events s s1)" by auto
    from Cons.IH [OF go(2) 1(1)] 1(2) show ?thesis
      by (simp add: deliver_notifications_split [OF go])
  qed
qed

lemma poll_cycle_invariant:
  assumes step: "\<And>n s x s'. deliver_notification en cfg n s = (x, s') \<Longrightarrow> I s \<Longrightarrow>
      I s' \<and> list_all p (new_events s s')"
    and frame: "\<And>s s'. I s \<Longrightarrow> push_table s' = push_table s \<Longrightarrow>
      channel_cache s' = channel_cache s \<Longrightarrow> I s'"
    and other: "\<And>r. p (Select r)" "\<And>e. p (Log (UnexpectedError e))" "p Sleep"
    and "poll_cycle en cfg s = (x, s')" and "I s"
  shows "I s' \<and> list_all p (new_events s s')"
  using assms(6)
proof (cases rule: poll_cycle_delivery)
  case cancelled
  then show ?thesis using assms(7) by simp
next
  case (ran r ns y s2 L)
  have "I (emit (Select r) s)" using assms(7) by (rule frame) simp_all
  with deliver_notifications_invariant [of en cfg I p, OF step ran(3)]
  have 1: "I s2" "list_all p (new_events (emit (Select r) s) s2)" by auto
  have "I s'" using 1(1) ran(7,8) by (rule frame)
  moreover have "list_all p L" using ran(6) other by auto
  ultimately show ?thesis using 1(2) other(1) ran(5) by simp
qed

lemma forward_notifications_loop_extends:
  "events (state_of (forward_notifications_loop fuel en cfg s)) =
     events s @ new_events s (state_of (forward_notifications_loop fuel en cfg s))"
proof (induction fuel arbitrary: s)
  case 0
  then show ?case by simp
next
  case (Suc k)
  show ?case
  proof (cases "is_closed en (now s)")
    case True
    then show ?thesis by simp
  next
    case False
    obtain x s1 where c: "poll_cycle en cfg s = (x, s1)" by (cases "poll_cycle en cfg s")
    from poll_cycle_extends(1) [OF c] have e: "events s1 = events s @ new_events s s1" .
    show ?thesis
    proof (cases x)
      case None
      have "events (state_of (forward_notifications_loop k en cfg s1)) =
        events s @ new_events s s1 @ new_events s1 (state_of (forward_notifications_loop k en cfg s1))"
        using Suc.IH [of s1] e by simp
      then have "\<exists>D. events (state_of (forward_notifications_loop k en cfg s1)) = events s @ D"
        by blast
      then show ?thesis using False c None by (auto simp: new_events_def)
    next
      case (Some t)
      then show ?thesis using False c e by simp
    qed
  qed
qed

lemma forward_notifications_loop_invariant:
  assumes step: "\<And>s x s'. poll_cycle en cfg s = (x, s') \<Longrightarrow> I s \<Longrightarrow>
      I s' \<and> list_all p (new_events s s')"
    and "I s"
  shows "I (state_of (forward_notifications_loop fuel en cfg s))
     \<and> list_all p (new_events s (state_of (forward_notifications_loop fuel en cfg s)))"
  using assms(2)
proof (induction fuel arbitrary: s)
  case 0
  then show ?case by simp
next
  case (Suc k)
  show ?case
  proof (cases "is_closed en (now s)")
    case True
    then show ?thesis using Suc.prems by simp
  next
    case False
    obtain x s1 where c: "poll_cycle en cfg s = (x, s1)" by (cases "poll_cycle en cfg s")
    from poll_cycle_extends(1) [OF c] have e: "events s1 = events s @ new_events s s1" .
    from step [OF c Suc.prems] have 1: "I s1" "list_all p (new_events s s1)" by auto
    show ?thesis
    proof (cases x)
      case None
      let ?s2 = "state_of (forward_notifications_loop k en cfg s1)"
      have l: "forward_notifications_loop (Suc k) en cfg s = forward_notifications_loop k en cfg s1"
        using False c None by simp
      have "new_events s ?s2 = new_events s s1 @ new_events s1 ?s2"
        using e forward_notifications_loop_extends [of k en cfg s1] by (rule new_events_trans)
      then show ?thesis using Suc.IH [OF 1(1)] 1(2) unfolding l by simp
    next
      case (Some t)
      then have "forward_notifications_loop (Suc k) en cfg s = Raised t s1"
        using False c by simp
      then show ?thesis using 1 by simp
    qed
  qed
qed

section \<open>The cache is kept\<close>

lemma fetch_channel_extends:
  "fetch_channel en c s = (r, s') \<Longrightarrow> events s' = events s @ new_events s s'"
  using fetch_channel_quiet(1) [of en c s r s'] by (auto simp: new_events_def)

lemma fetch_channel_keeps:
  assumes "fetch_channel en c s = (r, s')" and "channel_cache s cid = Some ch"
  shows "channel_cache s' cid = Some ch
    \<and> list_all (\<lambda>e. e \<noteq> GetChannel cid \<and> e \<noteq> FetchChannel cid) (new_events s s')"
proof (cases "channel_cache s c")
  case (Some ch')
  then have "s' = s" using assms(1) by (simp add: fetch_channel_hit)
  then show ?thesis using assms(2) by simp
next
  case None
  then have c: "c \<noteq> cid" using assms(2) by auto
  from fetch_channel_miss(1) [OF assms(1) None] obtain F where
    F: "events s' = events s @ GetChannel c # F"
     "F = [] \<or> F = [Log (NotMessageable c)] \<or> F = [FetchChannel c]
               \<or> F = [FetchChannel c, Log (NotMessageable c)]
               \<or> (\<exists>e. F = [FetchChannel c, Log (FailedToFetchChannel c e)])"
    by blast
  have n: "new_events s s' = GetChannel c # F" using F(1) by (rule new_events_append)
  have "channel_cache s' cid = Some ch"
    using fetch_channel_miss(3) [OF assms(1) None] c assms(2)
    by (auto split: sum.splits option.splits)
  moreover have "list_all (\<lambda>e. e \<noteq> GetChannel cid \<and> e \<noteq> FetchChannel cid) (GetChannel c # F)"
    using F(2) c by auto
  ultimately show ?thesis by (simp add: n)
qed

lemma deliver_notification_keeps:
  assumes "deliver_notification en cfg n s = (x, s')" and "channel_cache s cid = Some ch"
  shows "channel_cache s' cid = Some ch
    \<and> list_all (\<lambda>e. e \<noteq> GetChannel cid \<and> e \<noteq> FetchChannel cid) (new_events s s')"
proof -
  have after: "channel_cache s' cid = Some ch
      \<and> list_all (\<lambda>e. e \<noteq> GetChannel cid \<and> e \<noteq> FetchChannel cid) (new_events s s')"
    if f: "fetch_channel en c (logs W s) = (r, s2)"
      and s': "events s' = events s2 @ T" "channel_cache s' = channel_cache s2"
      and T: "list_all (\<lambda>e. e \<noteq> GetChannel cid \<and> e \<noteq> FetchChannel cid) T"
    for c W r s2 T
  proof -
    have k: "channel_cache (logs W s) cid = Some ch" using assms(2) by simp
    note fk = fetch_channel_keeps [OF f k] fetch_channel_extends [OF f]
    have "new_events s s' = map Log W @ new_events (logs W s) s2 @ T"
      by (rule new_events_append) (use fk(2) s'(1) in simp)
    then show ?thesis using fk(1) s'(2) T by (simp add: list_all_iff image_iff) blast
  qed
  from assms(1) show ?thesis
  proof (cases rule: deliver_notification_cases)
    case (no_channel c W s2)
    show ?thesis
      by (rule after [OF no_channel(2), of "[Log (SkippingNoChannel (push_id n) c)]"])
         (simp_all add: no_channel(4))
  next
    case (send_failed c W s2 ch' e)
    show ?thesis
      by (rule after [OF send_failed(2), of "map Log (snd (to_discord_message n))
          @ [Send (push_id n) ch' (fst (to_discord_message n)) (Some e),
             Log (FailedToSend (push_id n) e)]"])
         (auto simp: send_failed(4) list_all_iff)
  next
    case (delete_failed c W s2 ch' e)
    show ?thesis
      by (rule after [OF delete_failed(2), of "map Log (snd (to_discord_message n))
          @ [Send (push_id n) ch' (fst (to_discord_message n)) None,
             Delete (push_id n) (Some e)]"])
         (auto simp: delete_failed(4) list_all_iff)
  next
    case (deleted c W s2 ch')
    show ?thesis
      by (rule after [OF deleted(2), of "map Log (snd (to_discord_message n))
          @ [Send (push_id n) ch' (fst (to_discord_message n)) None, Delete (push_id n) None]"])
         (auto simp: deleted(4) list_all_iff)
  next
    case (fetch_cancelled c W)
    show ?thesis
      by (rule after [OF fetch_cancelled(2), of "[]"]) simp_all
  next
    case (send_cancelled c W s2 ch')
    show ?thesis
      by (rule after [OF send_cancelled(2), of "map Log (snd (to_discord_message n))"])
         (auto simp: send_cancelled(4) list_all_iff)
  next
    case (delete_cancelled c W s2 ch')
    show ?thesis
      by (rule after [OF delete_cancelled(2), of "map Log (snd (to_discord_message n))
          @ [Send (push_id n) ch' (fst (to_discord_message n)) None]"])
         (auto simp: delete_cancelled(4) list_all_iff)
  qed
qed

lemma poll_cycle_keeps:
  assumes "poll_cycle en cfg s = (x, s')" and "channel_cache s cid = Some ch"
  shows "channel_cache s' cid = Some ch
    \<and> list_all (\<lambda>e. e \<noteq> GetChannel cid \<and> e \<noteq> FetchChannel cid) (new_events s s')"
  by (rule poll_cycle_invariant [of en cfg "\<lambda>s. channel_cache s cid = Some ch" _ s x s',
        OF deliver_notification_keeps _ _ _ _ assms]) simp_all

lemma forward_notifications_loop_keeps:
  assumes "channel_cache s cid = Some ch"
  shows "channel_cache (state_of (forward_notifications_loop fuel en cfg s)) cid = Some ch
    \<and> list_all (\<lambda>e. e \<noteq> GetChannel cid \<and> e \<noteq> FetchChannel cid)
         (new_events s (state_of (forward_notifications_loop fuel en cfg s)))"
  by (rule forward_notifications_loop_invariant
        [of en cfg "\<lambda>s. channel_cache s cid = Some ch" _ s fuel, OF poll_cycle_keeps assms])

section \<open>Delivery and the queue store\<close>

text \<open>
  The same, for what the delivery did in the pass: the trace of the pass is the trace of
  the delivery of a batch between events that are no send, no delete and handle no
  notification.
\<close>

lemma poll_cycle_batch:
  assumes "poll_cycle en cfg s = (x, s')"
  obtains ns y s1 s2 pre L where
    "deliver_notifications en cfg ns s1 = (y, s2)"
    "ns = [] \<or> ns = pending s"
    "new_events s s' = pre @ new_events s1 s2 @ L"
    "\<forall>ev \<in> set (pre @ L).
       (\<exists>r. ev = Select r) \<or> (\<exists>e. ev = Log (UnexpectedError e)) \<or> ev = Sleep"
    "push_table s' = push_table s2"
    "x = None \<and> (\<forall>e. Log (UnexpectedError e) \<notin> set L) \<longrightarrow> ns = pending s \<and> y = None"
    "push_table s1 = push_table s"
  using assms
proof (cases rule: poll_cycle_delivery)
  case cancelled
  show ?thesis
    by (rule that [of "[]" s None s "[]" "[]"]) (use cancelled in simp_all)
next
  case (ran r ns y s2 L)
  show ?thesis
  proof (rule that [of ns "emit (Select r) s" y s2 "[Select r]" L])
    show "\<forall>ev \<in> set ([Select r] @ L).
       (\<exists>r. ev = Select r) \<or> (\<exists>e. ev = Log (UnexpectedError e)) \<or> ev = Sleep"
      using ran(6) by auto
    show "x = None \<and> (\<forall>e. Log (UnexpectedError e) \<notin> set L) \<longrightarrow> ns = pending s \<and> y = None"
      using ran(6) by auto
  qed (use ran in simp_all)
qed

lemma distinct_pending:
  "distinct (map row_id (push_table s)) \<Longrightarrow> distinct (map push_id (pending s))"
  by (simp add: pending_ids)

section \<open>The example run, evaluated\<close>

lemma example_message [simp]:
  "to_discord_message (to_notification (example_row i r)) = (example_text, [])"
  by (simp add: to_discord_message_def content_def header_def author_def body_def or_else_def
      strip_def is_space_def to_notification_def example_row_def example_text_def)

lemma example_recipient [simp]:
  "recipient (to_notification (example_row i r)) = r"
  "push_id (to_notification (example_row i r)) = i"
  "row_id (example_row i r) = i"
  by (simp_all add: to_notification_def example_row_def)

lemmas run_eval =
  poll_cycle_def try_block_def asyncio_sleep_def fetch_pending_notifications_def
  deliver_notification_def
  resolve_channel_id_def fetch_channel_def cache_if_messageable_def delete_push_row_def
  emit_def logs_def now_def Let_def

lemma example_cycle:
  "poll_cycle example_env example_config example_state =
     (None,
      \<lparr>push_table = [example_row 5 (Some ''ops'')],
       channel_cache = [42 \<mapsto> \<lparr>chan_id = 42, messageable = True\<rparr>,
                        77 \<mapsto> \<lparr>chan_id = 77, messageable = True\<rparr>],
       events =
         [Select None,
          GetChannel 42,
          Send 3 \<lparr>chan_id = 42, messageable = True\<rparr> example_text None,
          Delete 3 None,
          GetChannel 77,
          Send 5 \<lparr>chan_id = 77, messageable = True\<rparr> example_text (Some (Exn ''Forbidden'')),
          Log (FailedToSend 5 (Exn ''Forbidden'')),
          Send 9 \<lparr>chan_id = 42, messageable = True\<rparr> example_text None,
          Delete 9 None,
          Sleep]\<rparr>)"
  by (simp add: run_eval example_env_def example_config_def example_state_def)

lemma example_state_simps [simp]:
  "events example_state = []"
  "push_table example_state =
     [example_row 5 (Some ''ops''), example_row 3 (Some ''self''), example_row 9 None]"
  "channel_cache example_state = Map.empty"
  by (simp_all add: example_state_def)

lemma example_cycle_unmapped:
  "poll_cycle example_env (example_config\<lparr>channel_map := Map.empty\<rparr>) example_state =
     (None,
      \<lparr>push_table = [],
       channel_cache = [42 \<mapsto> \<lparr>chan_id = 42, messageable = True\<rparr>],
       events =
         [Select None,
          GetChannel 42,
          Send 3 \<lparr>chan_id = 42, messageable = True\<rparr> example_text None,
          Delete 3 None,
          Log (RecipientNotInMap ''ops'' 42),
          Send 5 \<lparr>chan_id = 42, messageable = True\<rparr> example_text None,
          Delete 5 None,
          Send 9 \<lparr>chan_id = 42, messageable = True\<rparr> example_text None,
          Delete 9 None,
          Sleep]\<rparr>)"
  by (simp add: run_eval example_env_def example_config_def example_state_def)


lemma example_fetch:
  "fetch_channel
     (example_env\<lparr>get_channel := \<lambda>t c. None,
        api_fetch_channel := \<lambda>t c. Inr \<lparr>chan_id = c, messageable = True\<rparr>\<rparr>) 42 example_state =
   (Inr (Some \<lparr>chan_id = 42, messageable = True\<rparr>),
    example_state\<lparr>channel_cache := [42 \<mapsto> \<lparr>chan_id = 42, messageable = True\<rparr>],
      events := [GetChannel 42, FetchChannel 42]\<rparr>)"
  by (simp add: run_eval example_env_def)




section \<open>Delete after send\<close>

text \<open>
  C1. In a pass of the delivery loop a delete, whether it succeeds or raises, is the last
  thing the pass does, it is for the notification of the pass, and the event before it is
  a send of the notification's formatted text that returned. When the send raises, the
  pass makes no delete, leaves the table as it was, and the loop goes on with the next
  notification. The same over a whole pass of the poll loop: every delete comes directly
  after a successful send of the formatted text of a pending row with its id; the table
  afterwards is the table before without the rows whose delete succeeded; and, the ids
  of the rows being distinct (\<open>id\<close> is the primary key), a notification whose send raised
  has no delete in the pass and its row is still in the table.
\<close>

theorem delete_only_after_send:
  "(\<forall>x s'. deliver_notification en cfg n s = (x, s') \<longrightarrow>
      (\<forall>i r. Delete i r \<in> set (new_events s s') \<longrightarrow>
         i = push_id n \<and>
         (\<exists>pre ch. new_events s s' =
            pre @ [Send (push_id n) ch (fst (to_discord_message n)) None, Delete (push_id n) r]))
      \<and> (\<forall>i ch t e. Send i ch t (Some e) \<in> set (new_events s s') \<longrightarrow>
         (\<forall>j r. Delete j r \<notin> set (new_events s s')) \<and> push_table s' = push_table s \<and> x = None
         \<and> deliver_notifications en cfg (n # ns) s = deliver_notifications en cfg ns s'))
   \<and> (\<forall>x s'. poll_cycle en cfg s = (x, s') \<longrightarrow>
      (\<forall>i r. Delete i r \<in> set (new_events s s') \<longrightarrow>
         (\<exists>pre post ch row. row \<in> set (push_table s) \<and> row_id row = i \<and>
            new_events s s' =
              pre @ [Send i ch (fst (to_discord_message (to_notification row))) None, Delete i r]
                @ post))
      \<and> push_table s' =
          filter (\<lambda>row. Delete (row_id row) None \<notin> set (new_events s s')) (push_table s)
      \<and> (distinct (map row_id (push_table s)) \<longrightarrow>
          (\<forall>i ch t e. Send i ch t (Some e) \<in> set (new_events s s') \<longrightarrow>
             (\<forall>r. Delete i r \<notin> set (new_events s s'))
             \<and> (\<forall>row \<in> set (push_table s). row_id row = i \<longrightarrow> row \<in> set (push_table s')))))"
proof (intro conjI allI impI ballI)
  fix x s' i r
  assume "deliver_notification en cfg n s = (x, s')" "Delete i r \<in> set (new_events s s')"
  from deliver_notification_step(2) [OF this]
  show "i = push_id n" "\<exists>pre ch. new_events s s' =
            pre @ [Send (push_id n) ch (fst (to_discord_message n)) None, Delete (push_id n) r]"
    by auto
next
  fix x s' i ch t e
  assume a: "deliver_notification en cfg n s = (x, s')"
    "Send i ch t (Some e) \<in> set (new_events s s')"
  from deliver_notification_step(3) [OF a] show "push_table s' = push_table s" "x = None"
    by auto
  then show "deliver_notifications en cfg (n # ns) s = deliver_notifications en cfg ns s'"
    using a(1) by simp
  fix j r
  from deliver_notification_step(3) [OF a] show "Delete j r \<notin> set (new_events s s')" by auto
next
  fix x s' i r
  assume "poll_cycle en cfg s = (x, s')" and d: "Delete i r \<in> set (new_events s s')"
  then show "\<exists>pre post ch row. row \<in> set (push_table s) \<and> row_id row = i \<and>
            new_events s s' =
              pre @ [Send i ch (fst (to_discord_message (to_notification row))) None, Delete i r]
                @ post"
  proof (cases rule: poll_cycle_batch)
    case (1 ms y s1 s2 pre0 L)
    let ?D = "new_events s1 s2"
    have "Delete i r \<in> set ?D" using d 1(3,4) by auto
    from deliver_notifications_delete [OF 1(1) this] obtain pre post ch m where
      m: "m \<in> set ms" "push_id m = i"
        "?D = pre @ [Send i ch (fst (to_discord_message m)) None, Delete i r] @ post"
      by blast
    from m(1) 1(2) obtain row where row: "row \<in> set (push_table s)" "m = to_notification row"
      by (auto simp: pending_set)
    show ?thesis
      by (intro exI [of _ "pre0 @ pre"] exI [of _ "post @ L"] exI [of _ ch] exI [of _ row])
         (use row m(2,3) 1(3) in simp)
  qed
next
  fix x s'
  assume "poll_cycle en cfg s = (x, s')"
  then show "push_table s' =
          filter (\<lambda>row. Delete (row_id row) None \<notin> set (new_events s s')) (push_table s)"
  proof (cases rule: poll_cycle_batch)
    case (1 ms y s1 s2 pre0 L)
    have "\<And>j. Delete j None \<in> set (new_events s s')
        \<longleftrightarrow> Delete j None \<in> set (new_events s1 s2)"
      using 1(3,4) by auto
    then show ?thesis
      using deliver_notifications_table [OF 1(1)] 1(5,7) by simp
  qed
next
  fix x s' i ch t e r
  assume c: "poll_cycle en cfg s = (x, s')" and dist: "distinct (map row_id (push_table s))"
    and f: "Send i ch t (Some e) \<in> set (new_events s s')"
  from c have nd: "\<And>r. Delete i r \<notin> set (new_events s s')"
  proof (cases rule: poll_cycle_batch)
    case (1 ms y s1 s2 pre0 L)
    fix r
    let ?D = "new_events s1 s2"
    have "Send i ch t (Some e) \<in> set ?D" using f 1(3,4) by auto
    moreover have "distinct (map push_id ms)" using 1(2) distinct_pending [OF dist] by auto
    ultimately have "Delete i r \<notin> set ?D"
      using deliver_notifications_failed_send [OF 1(1)] by blast
    then show "Delete i r \<notin> set (new_events s s')" using 1(3,4) by auto
  qed
  then show "Delete i r \<notin> set (new_events s s')" .
  fix row
  assume "row \<in> set (push_table s)" "row_id row = i"
  moreover from c have "push_table s' =
          filter (\<lambda>row. Delete (row_id row) None \<notin> set (new_events s s')) (push_table s)"
  proof (cases rule: poll_cycle_batch)
    case (1 ms y s1 s2 pre0 L)
    have "\<And>j. Delete j None \<in> set (new_events s s')
        \<longleftrightarrow> Delete j None \<in> set (new_events s1 s2)"
      using 1(3,4) by auto
    then show ?thesis
      using deliver_notifications_table [OF 1(1)] 1(5,7) by simp
  qed
  ultimately show "row \<in> set (push_table s')" using nd by simp
qed

theorem delete_only_after_send_witness:
  "distinct (map row_id (push_table example_state))
   \<and> Send 5 \<lparr>chan_id = 77, messageable = True\<rparr> example_text (Some (Exn ''Forbidden''))
       \<in> set (new_events example_state (snd (poll_cycle example_env example_config example_state)))
   \<and> (\<forall>r. Delete 5 r
       \<notin> set (new_events example_state (snd (poll_cycle example_env example_config example_state))))
   \<and> example_row 5 (Some ''ops'')
       \<in> set (push_table (snd (poll_cycle example_env example_config example_state)))
   \<and> Delete 3 None
       \<in> set (new_events example_state (snd (poll_cycle example_env example_config example_state)))
   \<and> (\<exists>pre post ch row. row \<in> set (push_table example_state) \<and> row_id row = 3 \<and>
         new_events example_state (snd (poll_cycle example_env example_config example_state)) =
           pre @ [Send 3 ch (fst (to_discord_message (to_notification row))) None, Delete 3 None]
             @ post)"
proof -
  let ?s' = "snd (poll_cycle example_env example_config example_state)"
  have pc: "poll_cycle example_env example_config example_state = (None, ?s')"
    by (simp add: example_cycle)
  have ne: "new_events example_state ?s' =
         [Select None,
          GetChannel 42,
          Send 3 \<lparr>chan_id = 42, messageable = True\<rparr> example_text None,
          Delete 3 None,
          GetChannel 77,
          Send 5 \<lparr>chan_id = 77, messageable = True\<rparr> example_text (Some (Exn ''Forbidden'')),
          Log (FailedToSend 5 (Exn ''Forbidden'')),
          Send 9 \<lparr>chan_id = 42, messageable = True\<rparr> example_text None,
          Delete 9 None,
          Sleep]"
    by (simp add: example_cycle new_events_def)
  have d: "distinct (map row_id (push_table example_state))"
    by simp
  have f: "Send 5 \<lparr>chan_id = 77, messageable = True\<rparr> example_text (Some (Exn ''Forbidden''))
       \<in> set (new_events example_state ?s')"
    by (simp add: ne)
  have g: "Delete 3 None \<in> set (new_events example_state ?s')"
    by (simp add: ne)
  have r: "example_row 5 (Some ''ops'') \<in> set (push_table example_state)"
    "row_id (example_row 5 (Some ''ops'')) = 5"
    by simp_all
  note T = delete_only_after_send [of example_env example_config _ example_state,
      THEN conjunct2, rule_format, OF pc]
  from T d f r g show ?thesis by blast
qed

section \<open>Order of delivery\<close>

text \<open>
  C2. The fetch returns the pending rows sorted by ascending id: the ids it returns are
  the table's ids sorted, and the notifications are those of the table's rows, all of
  them. A pass of the poll loop handles notifications in that order: the ids it handled
  (sent to, or skipped for want of a channel), in the order of the trace, are an initial
  piece of the sorted ids, and all of them when the pass logged no error and ended with
  its sleep (nothing left the \<open>try\<close> block: no error, no cancellation). For the pending
  ids 5, 3, 9 the order is 3, 5, 9.
\<close>

theorem ascending_id_order:
  "(\<forall>ns s1. fetch_pending_notifications en s = (Inr ns, s1) \<longrightarrow>
       sorted (map push_id ns) \<and> map push_id ns = sort (map row_id (push_table s))
       \<and> set ns = to_notification ` set (push_table s) \<and> length ns = length (push_table s))
   \<and> (\<forall>x s'. poll_cycle en cfg s = (x, s') \<longrightarrow>
       (\<exists>k. concat (map handled (new_events s s')) = take k (sort (map row_id (push_table s))))
       \<and> (x = None \<and> (\<forall>e. Log (UnexpectedError e) \<notin> set (new_events s s')) \<longrightarrow>
            concat (map handled (new_events s s')) = sort (map row_id (push_table s))))
   \<and> (\<forall>x s'. map row_id (push_table s) = [5, 3, 9] \<longrightarrow> poll_cycle en cfg s = (x, s') \<longrightarrow>
         x = None \<and> (\<forall>e. Log (UnexpectedError e) \<notin> set (new_events s s')) \<longrightarrow>
         concat (map handled (new_events s s')) = [3, 5, 9])"
proof -
  have fetch: "sorted (map push_id ns) \<and> map push_id ns = sort (map row_id (push_table s))
       \<and> set ns = to_notification ` set (push_table s) \<and> length ns = length (push_table s)"
    if "fetch_pending_notifications en s = (Inr ns, s1)" for ns s1
  proof -
    have "ns = pending s"
      using that by (auto simp: fetch_pending_notifications_def pending_def split: option.splits)
    then show ?thesis
      using pending_ids [of s] pending_set [of s] by (simp add: pending_def)
  qed
  have cycle: "(\<exists>k. concat (map handled (new_events s s')) = take k (sort (map row_id (push_table s))))
       \<and> (x = None \<and> (\<forall>e. Log (UnexpectedError e) \<notin> set (new_events s s')) \<longrightarrow>
            concat (map handled (new_events s s')) = sort (map row_id (push_table s)))"
    if "poll_cycle en cfg s = (x, s')" for x s'
    using that
  proof (cases rule: poll_cycle_batch)
    case (1 ms y s1 s2 pre0 L)
    let ?D = "new_events s1 s2"
    have "handled ev = []" if "ev \<in> set (pre0 @ L)" for ev
      using 1(4) that by fastforce
    then have aside: "concat (map handled pre0) = []" "concat (map handled L) = []"
      by (simp_all add: concat_eq_Nil_conv)
    have h: "concat (map handled (new_events s s')) = concat (map handled ?D)"
      by (simp add: 1(3) aside)
    from deliver_notifications_handled [OF 1(1)] obtain k where
      k: "concat (map handled ?D) = map push_id (take k ms)" "y = None \<longrightarrow> k = length ms"
      by blast
    have "\<exists>k. concat (map handled ?D) = take k (sort (map row_id (push_table s)))"
    proof (cases "ms = []")
      case True
      then show ?thesis using k(1) by (intro exI [of _ 0]) simp
    next
      case False
      then have "ms = pending s" using 1(2) by simp
      then show ?thesis using k(1) pending_ids [of s] by (intro exI [of _ k]) (metis take_map)
    qed
    moreover have "concat (map handled ?D) = sort (map row_id (push_table s))"
      if "x = None \<and> (\<forall>e. Log (UnexpectedError e) \<notin> set (new_events s s'))"
    proof -
      have "x = None \<and> (\<forall>e. Log (UnexpectedError e) \<notin> set L)" using that 1(3) by simp
      then have "ms = pending s" "y = None" using 1(6) by auto
      then show ?thesis using k pending_ids [of s] by simp
    qed
    ultimately show ?thesis using h by simp
  qed
  have example: "concat (map handled (new_events s s')) = [3, 5, 9]"
    if "map row_id (push_table s) = [5, 3, 9]" "poll_cycle en cfg s = (x, s')"
      "x = None \<and> (\<forall>e. Log (UnexpectedError e) \<notin> set (new_events s s'))" for x s'
    using cycle [OF that(2)] that(1,3) by simp
  show ?thesis
  proof (intro conjI allI impI)
    fix ns s1
    assume f: "fetch_pending_notifications en s = (Inr ns, s1)"
    from fetch [OF f] show "sorted (map push_id ns)"
      "map push_id ns = sort (map row_id (push_table s))"
      "set ns = to_notification ` set (push_table s)" "length ns = length (push_table s)"
      by simp_all
  next
    fix x s'
    assume c: "poll_cycle en cfg s = (x, s')"
    from cycle [OF c]
    show "\<exists>k. concat (map handled (new_events s s')) = take k (sort (map row_id (push_table s)))"
      by simp
    assume "x = None \<and> (\<forall>e. Log (UnexpectedError e) \<notin> set (new_events s s'))"
    with cycle [OF c]
    show "concat (map handled (new_events s s')) = sort (map row_id (push_table s))" by simp
  next
    fix x s'
    assume "map row_id (push_table s) = [5, 3, 9]" "poll_cycle en cfg s = (x, s')"
      "x = None \<and> (\<forall>e. Log (UnexpectedError e) \<notin> set (new_events s s'))"
    then show "concat (map handled (new_events s s')) = [3, 5, 9]" by (rule example)
  qed
qed

theorem ascending_id_order_witness:
  "map row_id (push_table example_state) = [5, 3, 9]
   \<and> (\<forall>e. Log (UnexpectedError e) \<notin> set (new_events example_state
         (snd (poll_cycle example_env (example_config\<lparr>channel_map := Map.empty\<rparr>) example_state))))
   \<and> concat (map handled (new_events example_state
         (snd (poll_cycle example_env (example_config\<lparr>channel_map := Map.empty\<rparr>) example_state))))
       = [3, 5, 9]
   \<and> push_table (snd (poll_cycle example_env (example_config\<lparr>channel_map := Map.empty\<rparr>)
         example_state)) = []"
proof -
  let ?cfg = "example_config\<lparr>channel_map := Map.empty\<rparr>"
  let ?s' = "snd (poll_cycle example_env ?cfg example_state)"
  have pc: "poll_cycle example_env ?cfg example_state = (None, ?s')"
    by (simp add: example_cycle_unmapped)
  have ne: "new_events example_state ?s' =
         [Select None,
          GetChannel 42,
          Send 3 \<lparr>chan_id = 42, messageable = True\<rparr> example_text None,
          Delete 3 None,
          Log (RecipientNotInMap ''ops'' 42),
          Send 5 \<lparr>chan_id = 42, messageable = True\<rparr> example_text None,
          Delete 5 None,
          Send 9 \<lparr>chan_id = 42, messageable = True\<rparr> example_text None,
          Delete 9 None,
          Sleep]"
    by (simp add: example_cycle_unmapped new_events_def)
  have ids: "map row_id (push_table example_state) = [5, 3, 9]" by simp
  have quiet: "\<forall>e. Log (UnexpectedError e) \<notin> set (new_events example_state ?s')"
    by (simp add: ne)
  have "concat (map handled (new_events example_state ?s')) = [3, 5, 9]"
    using ascending_id_order [of example_env example_state ?cfg,
        THEN conjunct2, THEN conjunct2, rule_format, OF ids pc] quiet
    by blast
  moreover have "push_table ?s' = []" by (simp add: example_cycle_unmapped)
  ultimately show ?thesis using ids quiet by blast
qed

section \<open>Errors and the poll loop\<close>
















section \<open>The cache of resolved targets\<close>

lemma fetch_channel_stores:
  assumes "fetch_channel en cid s = (Inr (Some ch), s1)"
  shows "channel_cache s1 cid = Some ch"
    and "count_list (new_events s s1) (GetChannel cid) \<le> 1"
    and "count_list (new_events s s1) (FetchChannel cid) \<le> 1"
proof -
  show "channel_cache s1 cid = Some ch"
  proof (cases "channel_cache s cid")
    case None
    from fetch_channel_miss(3) [OF assms None] show ?thesis by simp
  next
    case (Some ch')
    then show ?thesis using assms by (simp add: fetch_channel_hit)
  qed
  have "count_list (new_events s s1) (GetChannel cid) \<le> 1
    \<and> count_list (new_events s s1) (FetchChannel cid) \<le> 1"
  proof (cases "channel_cache s cid")
    case None
    from fetch_channel_miss(1) [OF assms None] obtain F where
      F: "events s1 = events s @ GetChannel cid # F"
       "F = [] \<or> F = [Log (NotMessageable cid)] \<or> F = [FetchChannel cid]
               \<or> F = [FetchChannel cid, Log (NotMessageable cid)]
               \<or> (\<exists>e. F = [FetchChannel cid, Log (FailedToFetchChannel cid e)])"
      by blast
    have n: "new_events s s1 = GetChannel cid # F" using F(1) by (rule new_events_append)
    show ?thesis using F(2) unfolding n by auto
  next
    case (Some ch')
    then have "s1 = s" using assms by (simp add: fetch_channel_hit)
    then show ?thesis by simp
  qed
  then show "count_list (new_events s s1) (GetChannel cid) \<le> 1"
    "count_list (new_events s s1) (FetchChannel cid) \<le> 1"
    by simp_all
qed

text \<open>A call that returns no handle leaves the cache as it was, so the next call with
  the same id asks the client again.\<close>

lemma fetch_channel_none:
  assumes "fetch_channel en cid s = (Inr None, s')"
  shows "channel_cache s' = channel_cache s \<and> channel_cache s cid = None"
proof (cases "channel_cache s cid")
  case None
  from fetch_channel_miss(3) [OF assms None] None show ?thesis by simp
next
  case (Some ch)
  then show ?thesis using assms by (simp add: fetch_channel_hit)
qed

lemma fetch_channel_failure_twice:
  "fetch_channel (example_env\<lparr>get_channel := \<lambda>t c. None\<rparr>) 42
     (snd (fetch_channel (example_env\<lparr>get_channel := \<lambda>t c. None\<rparr>) 42 example_state)) =
   (Inr None, example_state\<lparr>events :=
      [GetChannel 42, FetchChannel 42, Log (FailedToFetchChannel 42 (Exn ''NotFound'')),
       GetChannel 42, FetchChannel 42, Log (FailedToFetchChannel 42 (Exn ''NotFound''))]\<rparr>)"
  by (simp add: run_eval example_env_def)

text \<open>
  C7. When a call of \<open>_fetch_channel\<close> returns a handle, the handle is in the cache under
  the channel id, and the call has asked the client's \<open>get_channel\<close> and \<open>fetch_channel\<close> at
  most once each for it. A second call with that id, whatever the client would answer,
  returns the cached handle and leaves the state as it is: no event, so no call of the
  client. The entry is never evicted: after any delivery and after any number of passes
  of the poll loop from there, the cache still holds the handle, the trace since has no
  \<open>get_channel\<close> and no \<open>fetch_channel\<close> for the id, and a call with it returns the
  handle. (A call that returns no handle caches nothing.)
\<close>

theorem fetch_channel_cached:
  "fetch_channel en cid s = (Inr (Some ch), s1) \<longrightarrow>
     channel_cache s1 cid = Some ch
     \<and> count_list (new_events s s1) (GetChannel cid) \<le> 1
     \<and> count_list (new_events s s1) (FetchChannel cid) \<le> 1
     \<and> fetch_channel en' cid s1 = (Inr (Some ch), s1)
     \<and> (\<forall>s2. s2 = state_of (forward_notifications_loop fuel en' cfg s1) \<or>
              s2 = snd (deliver_notifications en' cfg ns s1) \<longrightarrow>
           channel_cache s2 cid = Some ch
           \<and> GetChannel cid \<notin> set (new_events s1 s2)
           \<and> FetchChannel cid \<notin> set (new_events s1 s2)
           \<and> fetch_channel en'' cid s2 = (Inr (Some ch), s2))"
proof
  assume a: "fetch_channel en cid s = (Inr (Some ch), s1)"
  note st = fetch_channel_stores [OF a]
  have hit: "fetch_channel e cid s2 = (Inr (Some ch), s2)" if "channel_cache s2 cid = Some ch" for e s2
    using that by (rule fetch_channel_hit)
  have keep: "channel_cache s2 cid = Some ch
           \<and> GetChannel cid \<notin> set (new_events s1 s2)
           \<and> FetchChannel cid \<notin> set (new_events s1 s2)
           \<and> fetch_channel en'' cid s2 = (Inr (Some ch), s2)"
    if "s2 = state_of (forward_notifications_loop fuel en' cfg s1) \<or>
              s2 = snd (deliver_notifications en' cfg ns s1)" for s2
  proof -
    have "channel_cache s2 cid = Some ch
      \<and> list_all (\<lambda>e. e \<noteq> GetChannel cid \<and> e \<noteq> FetchChannel cid) (new_events s1 s2)"
      using that
    proof
      assume "s2 = state_of (forward_notifications_loop fuel en' cfg s1)"
      then show ?thesis using forward_notifications_loop_keeps [OF st(1)] by simp
    next
      assume s2: "s2 = snd (deliver_notifications en' cfg ns s1)"
      then have "deliver_notifications en' cfg ns s1 = (fst (deliver_notifications en' cfg ns s1), s2)"
        by simp
      from deliver_notifications_invariant
        [of en' cfg "\<lambda>s. channel_cache s cid = Some ch"
          "\<lambda>e. e \<noteq> GetChannel cid \<and> e \<noteq> FetchChannel cid" ns s1,
          OF deliver_notification_keeps this st(1)]
      show ?thesis by simp
    qed
    then show ?thesis using hit [of s2 en''] by (auto simp: list_all_iff)
  qed
  show "channel_cache s1 cid = Some ch
     \<and> count_list (new_events s s1) (GetChannel cid) \<le> 1
     \<and> count_list (new_events s s1) (FetchChannel cid) \<le> 1
     \<and> fetch_channel en' cid s1 = (Inr (Some ch), s1)
     \<and> (\<forall>s2. s2 = state_of (forward_notifications_loop fuel en' cfg s1) \<or>
              s2 = snd (deliver_notifications en' cfg ns s1) \<longrightarrow>
           channel_cache s2 cid = Some ch
           \<and> GetChannel cid \<notin> set (new_events s1 s2)
           \<and> FetchChannel cid \<notin> set (new_events s1 s2)
           \<and> fetch_channel en'' cid s2 = (Inr (Some ch), s2))"
    using st hit [OF st(1)] keep by blast
qed

theorem fetch_channel_cached_witness:
  "fetch_channel
     (example_env\<lparr>get_channel := \<lambda>t c. None,
        api_fetch_channel := \<lambda>t c. Inr \<lparr>chan_id = c, messageable = True\<rparr>\<rparr>) 42 example_state =
   (Inr (Some \<lparr>chan_id = 42, messageable = True\<rparr>),
    example_state\<lparr>channel_cache := [42 \<mapsto> \<lparr>chan_id = 42, messageable = True\<rparr>],
      events := [GetChannel 42, FetchChannel 42]\<rparr>)
   \<and> fetch_channel example_env 42
        (example_state\<lparr>channel_cache := [42 \<mapsto> \<lparr>chan_id = 42, messageable = True\<rparr>],
           events := [GetChannel 42, FetchChannel 42]\<rparr>) =
       (Inr (Some \<lparr>chan_id = 42, messageable = True\<rparr>),
        example_state\<lparr>channel_cache := [42 \<mapsto> \<lparr>chan_id = 42, messageable = True\<rparr>],
           events := [GetChannel 42, FetchChannel 42]\<rparr>)
   \<and> channel_cache (state_of (forward_notifications_loop 2 example_env example_config
        (example_state\<lparr>channel_cache := [42 \<mapsto> \<lparr>chan_id = 42, messageable = True\<rparr>],
           events := [GetChannel 42, FetchChannel 42]\<rparr>))) 42 =
       Some \<lparr>chan_id = 42, messageable = True\<rparr>
   \<and> GetChannel 42 \<notin> set (new_events
        (example_state\<lparr>channel_cache := [42 \<mapsto> \<lparr>chan_id = 42, messageable = True\<rparr>],
           events := [GetChannel 42, FetchChannel 42]\<rparr>)
        (state_of (forward_notifications_loop 2 example_env example_config
        (example_state\<lparr>channel_cache := [42 \<mapsto> \<lparr>chan_id = 42, messageable = True\<rparr>],
           events := [GetChannel 42, FetchChannel 42]\<rparr>))))"
  using fetch_channel_cached
    [of "example_env\<lparr>get_channel := \<lambda>t c. None,
        api_fetch_channel := \<lambda>t c. Inr \<lparr>chan_id = c, messageable = True\<rparr>\<rparr>" 42 example_state
      "\<lparr>chan_id = 42, messageable = True\<rparr>"
      "example_state\<lparr>channel_cache := [42 \<mapsto> \<lparr>chan_id = 42, messageable = True\<rparr>],
         events := [GetChannel 42, FetchChannel 42]\<rparr>"
      example_env 2 example_config "[]" example_env]
    example_fetch
  by blast

section \<open>Resolution never fails\<close>

text \<open>The step of the invariant lemmas for the skip that never happens; the state
  carries no condition here.\<close>

lemma deliver_notification_never_unmapped:
  "deliver_notification en cfg n s = (x, s') \<Longrightarrow> True \<Longrightarrow>
   True \<and> list_all (\<lambda>e. \<forall>i y. e \<noteq> Log (SkippingNoMapping i y)) (new_events s s')"
  using deliver_notification_step(7) [of en cfg n s x s'] by (auto simp: list_all_iff)

text \<open>
  C10. \<open>_resolve_channel_id\<close> never returns \<open>None\<close>, whatever the recipient and the
  configuration. So the branch of the delivery loop that skips a notification for want
  of a channel mapping is never taken: its log record is in the trace of no delivery
  and of no run of the poll loop.
\<close>

theorem resolve_channel_id_total:
  "fst (resolve_channel_id cfg r) \<noteq> None
   \<and> Log (SkippingNoMapping i y) \<notin> set (new_events s (snd (deliver_notifications en cfg ns s)))
   \<and> Log (SkippingNoMapping i y) \<notin>
        set (new_events s (state_of (forward_notifications_loop fuel en cfg s)))"
proof (intro conjI)
  show "fst (resolve_channel_id cfg r) \<noteq> None"
    using resolve_channel_id_some [of cfg r] by auto
  have "deliver_notifications en cfg ns s =
      (fst (deliver_notifications en cfg ns s), snd (deliver_notifications en cfg ns s))"
    by simp
  from deliver_notifications_never [OF this]
  show "Log (SkippingNoMapping i y) \<notin> set (new_events s (snd (deliver_notifications en cfg ns s)))"
    by simp
  have cycle: "True \<and> list_all (\<lambda>e. \<forall>i y. e \<noteq> Log (SkippingNoMapping i y)) (new_events s s')"
    if "poll_cycle en cfg s = (x, s')" "True" for s x s'
    by (rule poll_cycle_invariant [of en cfg "\<lambda>s. True"
          "\<lambda>e. \<forall>i y. e \<noteq> Log (SkippingNoMapping i y)" s x s',
          OF deliver_notification_never_unmapped _ _ _ _ that]) simp_all
  have "True \<and> list_all (\<lambda>e. \<forall>i y. e \<noteq> Log (SkippingNoMapping i y))
     (new_events s (state_of (forward_notifications_loop fuel en cfg s)))"
  proof (rule forward_notifications_loop_invariant [of en cfg "\<lambda>s. True"
        "\<lambda>e. \<forall>i y. e \<noteq> Log (SkippingNoMapping i y)" s fuel])
    fix s x s'
    assume "poll_cycle en cfg s = (x, s')" "True"
    then show "True \<and> list_all (\<lambda>e. \<forall>i y. e \<noteq> Log (SkippingNoMapping i y)) (new_events s s')"
      by (rule cycle)
  qed simp
  then show "Log (SkippingNoMapping i y) \<notin>
        set (new_events s (state_of (forward_notifications_loop fuel en cfg s)))"
    unfolding list_all_iff by blast
qed

theorem resolve_channel_id_total_witness:
  "fst (resolve_channel_id example_config (Some ''nobody'')) = Some 42
   \<and> Log (SkippingNoMapping 5 (Some ''ops''))
       \<notin> set (new_events example_state
             (state_of (forward_notifications_loop 2 example_env example_config example_state)))"
proof -
  have "fst (resolve_channel_id example_config (Some ''nobody'')) = Some 42"
    by (simp add: resolve_channel_id_def example_config_def)
  then show ?thesis
    using resolve_channel_id_total [of example_config "Some ''nobody''" 5 "Some ''ops''"
        example_state example_env "[]" 2]
    by blast
qed

end
